theory Spec2Isabelle
  imports Main "HOL-Library.Char_ord" "HOL-Library.List_Lexorder" "HOL-Library.Option_ord"
    "HOL-Library.Multiset"
begin

unbundle bit_operations_syntax

section \<open>Target trees\<close>

text \<open>
  A target node of the tree library: an identity (Python compares and hashes nodes by
  identity), a name, further named features (\<open>species\<close>, \<open>evoltype\<close>, ...) and the
  ordered children.
\<close>

datatype tnode = TNode (nid: nat) (nname: string) (nfeatures: "(string \<times> string) list")
  (nchildren: "tnode list")

text \<open>\<open>getattr(n, attr_name, None)\<close>: every node has a name, any other feature may be absent.\<close>

definition getattr_node :: "string \<Rightarrow> tnode \<Rightarrow> string option" where
  "getattr_node attr_name n =
     (if attr_name = ''name'' then Some (nname n) else map_of (nfeatures n) attr_name)"

text \<open>\<open>node.iter_leaves()\<close> and \<open>node.get_leaves()\<close>: the leaves below a node, left to right.\<close>

fun iter_leaves :: "tnode \<Rightarrow> tnode list" where
  "iter_leaves (TNode i nm fs cs) =
     (if cs = [] then [TNode i nm fs cs] else concat (map iter_leaves cs))"

text \<open>The traversal strategies of \<open>node.traverse(strategy)\<close>; the node itself is included.\<close>

datatype strategy = Preorder | Postorder | Levelorder

fun preorder :: "tnode \<Rightarrow> tnode list" where
  "preorder (TNode i nm fs cs) = TNode i nm fs cs # concat (map preorder cs)"

fun postorder :: "tnode \<Rightarrow> tnode list" where
  "postorder (TNode i nm fs cs) = concat (map postorder cs) @ [TNode i nm fs cs]"

function bfs :: "tnode list \<Rightarrow> tnode list" where
  "bfs [] = []"
| "bfs (n # tovisit) = n # bfs (tovisit @ nchildren n)"
  by pat_completeness auto
termination
proof (relation "measure (\<lambda>q. sum_list (map size q))")
  fix n :: tnode and tovisit :: "tnode list"
  have "sum_list (map size (nchildren n)) < size n"
    by (cases n) (simp add: size_list_conv_sum_list)
  then show "(tovisit @ nchildren n, n # tovisit) \<in> measure (\<lambda>q. sum_list (map size q))"
    by simp
qed simp

definition levelorder :: "tnode \<Rightarrow> tnode list" where
  "levelorder n = bfs [n]"

fun traverse :: "strategy \<Rightarrow> tnode \<Rightarrow> tnode list" where
  "traverse Preorder n = preorder n"
| "traverse Postorder n = postorder n"
| "traverse Levelorder n = levelorder n"

text \<open>\<open>node.get_descendants()\<close>: all nodes below the node, the node itself excluded.\<close>

definition get_descendants :: "tnode \<Rightarrow> tnode list" where
  "get_descendants n = tl (levelorder n)"

section \<open>The attribute cache\<close>

text \<open>
  The exceptions that can leave the code. \<open>NotBooleanResult\<close> and \<open>EvaluationFailed\<close> are the
  two \<open>ValueError\<close>s that \<open>is_local_match\<close> raises itself (\<open>not a boolean result\<close>,
  \<open>Constraint evaluation failed\<close>), \<open>UnboundName\<close> is the \<open>NameError\<close> it raises after the
  retry; the others are raised by the evaluated expression or by an index or key out of range.
\<close>

datatype py_exc = KeyError | ValueError | NameError | AttributeError | IndexError
  | TypeError | SyntaxError | OtherError
  | NotBooleanResult | EvaluationFailed | UnboundName

text \<open>
  \<open>TreePatternCache\<close>: two dictionaries from a node to its cached content, the leaves
  below it and all the nodes of its subtree. Python keys a dictionary of nodes by the
  identity of the node, so the key is \<open>nid\<close>: an entry is still found after the children of
  the node have changed. The tree library stores each content as a set of nodes, so the
  order in which it is listed is not fixed.
\<close>

record tp_cache =
  leaves_cache :: "nat \<rightharpoonup> tnode list"
  all_node_cache :: "nat \<rightharpoonup> tnode list"

text \<open>Reading a dictionary: a missing key raises \<open>KeyError\<close>.\<close>

definition dict_get :: "('k \<rightharpoonup> 'v) \<Rightarrow> 'k \<Rightarrow> py_exc + 'v" where
  "dict_get d k = (case d k of None \<Rightarrow> Inl KeyError | Some v \<Rightarrow> Inr v)"

text \<open>\<open>TreePatternCache.get_cached_attr\<close>, \<open>get_leaves\<close> and \<open>get_descendants\<close>.\<close>

definition cache_get_cached_attr ::
  "tp_cache \<Rightarrow> string \<Rightarrow> tnode \<Rightarrow> bool \<Rightarrow> py_exc + string option list" where
  "cache_get_cached_attr c attr_name node leaves_only =
     (case dict_get (if leaves_only then leaves_cache c else all_node_cache c) (nid node) of
        Inl e \<Rightarrow> Inl e
      | Inr ns \<Rightarrow> Inr (map (getattr_node attr_name) ns))"

definition cache_get_leaves :: "tp_cache \<Rightarrow> tnode \<Rightarrow> py_exc + tnode list" where
  "cache_get_leaves c node = dict_get (leaves_cache c) (nid node)"

definition cache_get_descendants :: "tp_cache \<Rightarrow> tnode \<Rightarrow> py_exc + tnode list" where
  "cache_get_descendants c node = dict_get (all_node_cache c) (nid node)"

text \<open>\<open>_FakeCache\<close>: the same three operations by direct traversal of the tree.\<close>

definition fake_get_cached_attr :: "string \<Rightarrow> tnode \<Rightarrow> bool \<Rightarrow> string option list" where
  "fake_get_cached_attr attr_name node leaves_only =
     map (getattr_node attr_name) (if leaves_only then iter_leaves node else levelorder node)"

definition fake_get_leaves :: "tnode \<Rightarrow> tnode list" where
  "fake_get_leaves node = iter_leaves node"

definition fake_get_descendants :: "tnode \<Rightarrow> tnode list" where
  "fake_get_descendants node = get_descendants node"

text \<open>
  The \<open>cache\<close> property of \<open>PatternSyntax\<close>: the bound cache when there is one, the fake
  cache otherwise. The binding is \<open>None\<close> or a \<open>TreePatternCache\<close>.
\<close>

definition get_cached_attr ::
  "tp_cache option \<Rightarrow> string \<Rightarrow> tnode \<Rightarrow> bool \<Rightarrow> py_exc + string option list" where
  "get_cached_attr binding attr_name node leaves_only =
     (case binding of
        Some c \<Rightarrow> cache_get_cached_attr c attr_name node leaves_only
      | None \<Rightarrow> Inr (fake_get_cached_attr attr_name node leaves_only))"

definition get_leaves :: "tp_cache option \<Rightarrow> tnode \<Rightarrow> py_exc + tnode list" where
  "get_leaves binding node =
     (case binding of Some c \<Rightarrow> cache_get_leaves c node | None \<Rightarrow> Inr (fake_get_leaves node))"

text \<open>
  \<open>TreePatternCache(tree)\<close> fills the two dictionaries with \<open>tree.get_cached_content()\<close>
  of the tree library: for every node of the tree, the set of the leaves below it and the
  set of the nodes of its subtree, the node itself included. \<open>cache_covers c tree\<close> says that
  \<open>c\<close> holds this content for the tree as it is now, each set listed in any order. The
  nodes of a tree have distinct identities.
\<close>

definition cache_covers :: "tp_cache \<Rightarrow> tnode \<Rightarrow> bool" where
  "cache_covers c tree =
     (\<forall>n \<in> set (preorder tree).
        (case leaves_cache c (nid n) of
           None \<Rightarrow> False
         | Some ls \<Rightarrow> mset ls = mset (iter_leaves n))
        \<and> (case all_node_cache c (nid n) of
             None \<Rightarrow> False
           | Some ns \<Rightarrow> mset ns = mset (levelorder n)))"

section \<open>The helper predicates of PatternSyntax\<close>

text \<open>Applying a function to a result that may be an exception.\<close>

definition on_result :: "('a \<Rightarrow> 'b) \<Rightarrow> py_exc + 'a \<Rightarrow> py_exc + 'b" where
  "on_result f r = (case r of Inl e \<Rightarrow> Inl e | Inr v \<Rightarrow> Inr (f v))"

definition leaves :: "tp_cache option \<Rightarrow> tnode \<Rightarrow> py_exc + string option list" where
  "leaves binding target_node = on_result sort (get_cached_attr binding ''name'' target_node True)"

definition descendants :: "tp_cache option \<Rightarrow> tnode \<Rightarrow> py_exc + string option list" where
  "descendants binding target_node =
     on_result sort (get_cached_attr binding ''name'' target_node False)"

definition species :: "tp_cache option \<Rightarrow> tnode \<Rightarrow> py_exc + string option set" where
  "species binding target_node = on_result set (get_cached_attr binding ''species'' target_node True)"

text \<open>
  The argument of \<open>contains_species\<close> and \<open>contains_leaves\<close>: one string, which stands for
  the set holding it, or a collection of strings, turned into a set.
\<close>

datatype names_arg = NameStr string | NameColl "string list"

fun required_set :: "names_arg \<Rightarrow> string list" where
  "required_set (NameStr s) = [s]"
| "required_set (NameColl xs) = remdups xs"

text \<open>The loop \<open>for sp in ...: if sp in names: found += 1\<close>, started at \<open>found\<close>.\<close>

fun count_found :: "string list \<Rightarrow> string option list \<Rightarrow> nat \<Rightarrow> nat" where
  "count_found names [] found = found"
| "count_found names (sp # rest) found =
     count_found names rest
       (if (case sp of None \<Rightarrow> False | Some s \<Rightarrow> s \<in> set names) then found + 1 else found)"

definition contains_species :: "tp_cache option \<Rightarrow> tnode \<Rightarrow> names_arg \<Rightarrow> py_exc + bool" where
  "contains_species binding target_node species_names =
     (let names = required_set species_names in
      on_result (\<lambda>vals. count_found names vals 0 = length names)
        (get_cached_attr binding ''species'' target_node True))"

definition contains_leaves :: "tp_cache option \<Rightarrow> tnode \<Rightarrow> names_arg \<Rightarrow> py_exc + bool" where
  "contains_leaves binding target_node node_names =
     (let names = required_set node_names in
      on_result (\<lambda>vals. count_found names vals 0 = length names)
        (get_cached_attr binding ''name'' target_node True))"

definition n_species :: "tp_cache option \<Rightarrow> tnode \<Rightarrow> py_exc + nat" where
  "n_species binding target_node =
     on_result (\<lambda>vals. length (remdups vals)) (get_cached_attr binding ''species'' target_node True)"

definition n_leaves :: "tp_cache option \<Rightarrow> tnode \<Rightarrow> py_exc + nat" where
  "n_leaves binding target_node = on_result length (get_leaves binding target_node)"

definition n_duplications :: "tp_cache option \<Rightarrow> tnode \<Rightarrow> py_exc + nat" where
  "n_duplications binding target_node =
     on_result (\<lambda>events. count_list events (Some ''D''))
       (get_cached_attr binding ''evoltype'' target_node False)"

definition n_speciations :: "tp_cache option \<Rightarrow> tnode \<Rightarrow> py_exc + nat" where
  "n_speciations binding target_node =
     on_result (\<lambda>events. count_list events (Some ''S''))
       (get_cached_attr binding ''evoltype'' target_node False)"

section \<open>Pattern nodes and constraint evaluation\<close>

text \<open>
  A pattern node: its expression (the node name), the syntax object it holds (\<open>self.syntax\<close>,
  named by a number: several nodes may hold the same object) and its children.
\<close>

datatype pattern = Pattern (pname: string) (psyntax: nat) (pchildren: "pattern list")

text \<open>
  The values an expression can evaluate to: booleans, integers, strings, \<open>None\<close>, and any
  other object (a set, a list, ...) of which only the truth value is kept.
\<close>

datatype pyval = PyBool bool | PyInt int | PyStr string | PyNone | PyObj bool

fun truthy :: "pyval \<Rightarrow> bool" where
  "truthy (PyBool b) = b"
| "truthy (PyInt i) = (i \<noteq> 0)"
| "truthy (PyStr s) = (s \<noteq> [])"
| "truthy PyNone = False"
| "truthy (PyObj b) = b"

fun is_ValueError :: "py_exc \<Rightarrow> bool" where
  "is_ValueError ValueError = True"
| "is_ValueError NotBooleanResult = True"
| "is_ValueError EvaluationFailed = True"
| "is_ValueError e = False"

fun is_NameError :: "py_exc \<Rightarrow> bool" where
  "is_NameError NameError = True"
| "is_NameError UnboundName = True"
| "is_NameError e = False"

text \<open>
  The cache binding of every syntax object: \<open>self.syntax.cache = cache\<close> writes it, the
  helper functions read it when an expression calls them.
\<close>

type_synonym syn_state = "nat \<Rightarrow> tp_cache option"

text \<open>
  Python's \<open>eval(constraint, constraint_scope)\<close> is a parameter of the model: it is given
  the syntax object whose attributes make up the scope, with its cache binding, the
  constraint text and the target node bound to \<open>__target_node\<close>, and returns a value or
  raises.
\<close>

type_synonym evaluator = "nat \<Rightarrow> tp_cache option \<Rightarrow> string \<Rightarrow> tnode \<Rightarrow> py_exc + pyval"

text \<open>
  One kind of expression is evaluated by the model itself, the one \<open>is_local_match\<close> builds
  for a plain name: the comparison of \<open>__target_node.name\<close> with a double-quoted string
  literal. Only literals without a double quote, a backslash, a line break or a NUL inside
  are taken: there the literal denotes its text.
\<close>

definition dquote :: char where
  "dquote = CHR 0x22"

definition plain_char :: "char \<Rightarrow> bool" where
  "plain_char c = (c \<noteq> dquote \<and> c \<noteq> CHR 0x5C \<and> c \<noteq> CHR 0x0A \<and> c \<noteq> CHR 0x0D \<and> c \<noteq> CHR 0x00)"

definition name_test_prefix :: string where
  "name_test_prefix = ''__target_node.name == ''"

fun string_literal :: "string \<Rightarrow> string option" where
  "string_literal [] = None"
| "string_literal (c # rest) =
     (if c = dquote \<and> rest \<noteq> [] \<and> last rest = dquote \<and> list_all plain_char (butlast rest)
      then Some (butlast rest) else None)"

definition name_test :: "string \<Rightarrow> string option" where
  "name_test constraint =
     (if take (length name_test_prefix) constraint = name_test_prefix
      then string_literal (drop (length name_test_prefix) constraint) else None)"

definition py_eval :: "evaluator \<Rightarrow> nat \<Rightarrow> tp_cache option \<Rightarrow> string \<Rightarrow> tnode \<Rightarrow> py_exc + pyval" where
  "py_eval ev syn binding constraint target_node =
     (case name_test constraint of
        Some s \<Rightarrow> Inr (PyBool (nname target_node = s))
      | None \<Rightarrow> ev syn binding constraint target_node)"

text \<open>\<open>self.name.replace('@', '__target_node')\<close>.\<close>

fun replace_at :: "string \<Rightarrow> string" where
  "replace_at [] = []"
| "replace_at (c # cs) =
     (if c = CHR ''@'' then ''__target_node'' @ replace_at cs else c # replace_at cs)"

text \<open>The constraint that \<open>is_local_match\<close> builds from the name of the pattern node.\<close>

definition constraint_of :: "string \<Rightarrow> string" where
  "constraint_of name =
     (if name = [] then []
      else if CHR ''@'' \<in> set name then replace_at name
      else if name = ''*'' then []
      else name_test_prefix @ [dquote] @ name @ [dquote])"

text \<open>
  \<open>is_local_match\<close>. The first evaluation uses the node's own syntax object; after a
  \<open>NameError\<close> the same constraint is evaluated with the syntax object of the root of the
  pattern, \<open>root_syn\<close>. The \<open>cache\<close> argument of the source is not used by its body.
\<close>

definition is_local_match ::
  "evaluator \<Rightarrow> nat \<Rightarrow> syn_state \<Rightarrow> pattern \<Rightarrow> tnode \<Rightarrow> py_exc + pyval" where
  "is_local_match ev root_syn st self target_node =
     (let constraint = constraint_of (pname self) in
      if constraint = [] then Inr (PyBool True)
      else
        (case py_eval ev (psyntax self) (st (psyntax self)) constraint target_node of
           Inr v \<Rightarrow> Inr v
         | Inl e \<Rightarrow>
             if is_ValueError e then Inl NotBooleanResult
             else if e = AttributeError \<or> e = IndexError then Inl EvaluationFailed
             else if is_NameError e then
               (case py_eval ev root_syn (st root_syn) constraint target_node of
                  Inr v \<Rightarrow> Inr v
                | Inl e' \<Rightarrow> if is_NameError e' then Inl UnboundName else Inl e')
             else Inl e))"

section \<open>Example trees\<close>

definition leaf_a1 :: tnode where
  "leaf_a1 = TNode 1 ''a'' [(''species'', ''A'')] []"

definition leaf_a2 :: tnode where
  "leaf_a2 = TNode 2 ''a'' [(''species'', ''A'')] []"

definition leaf_b :: tnode where
  "leaf_b = TNode 3 ''b'' [(''species'', ''B'')] []"

definition tree_aa :: tnode where
  "tree_aa = TNode 0 ''r'' [] [leaf_a1, leaf_a2]"

definition tree_ab :: tnode where
  "tree_ab = TNode 0 ''r'' [] [leaf_a1, leaf_b]"

text \<open>A cache for \<open>tree_ab\<close>, its sets listed in an order that is not the one of the traversal.\<close>

definition cache_ab :: tp_cache where
  "cache_ab = \<lparr> leaves_cache = [nid tree_ab \<mapsto> [leaf_b, leaf_a1], nid leaf_a1 \<mapsto> [leaf_a1],
                                  nid leaf_b \<mapsto> [leaf_b]],
               all_node_cache = [nid tree_ab \<mapsto> [leaf_b, tree_ab, leaf_a1],
                                 nid leaf_a1 \<mapsto> [leaf_a1], nid leaf_b \<mapsto> [leaf_b]] \<rparr>"

section \<open>Anchored match\<close>

text \<open>\<open>itertools.permutations(xs)\<close>: all orderings of the list, in the order of the positions.\<close>

function permutations :: "'a list \<Rightarrow> 'a list list" where
  "permutations xs =
     (if xs = [] then [[]]
      else concat (map (\<lambda>i. map ((#) (xs ! i)) (permutations (take i xs @ drop (Suc i) xs)))
                   [0..<length xs]))"
  by pat_completeness auto
termination
  by (relation "measure length") auto

declare permutations.simps [simp del]

text \<open>
  \<open>sub_status &= st\<close>: the conjunction of two booleans, the bitwise and when an integer is
  involved (\<open>True\<close> is 1), and a \<open>TypeError\<close> for a string, \<open>None\<close> or another object. The
  left operand is \<open>True\<close> or the result of an earlier \<open>&\<close> in every use.
\<close>

fun int_of_pyval :: "pyval \<Rightarrow> int option" where
  "int_of_pyval (PyBool b) = Some (if b then 1 else 0)"
| "int_of_pyval (PyInt i) = Some i"
| "int_of_pyval v = None"

fun py_and :: "pyval \<Rightarrow> pyval \<Rightarrow> py_exc + pyval" where
  "py_and (PyBool a) (PyBool b) = Inr (PyBool (a \<and> b))"
| "py_and x y =
     (case (int_of_pyval x, int_of_pyval y) of
        (Some i, Some j) \<Rightarrow> Inr (PyInt (i AND j))
      | _ \<Rightarrow> Inl TypeError)"

text \<open>
  \<open>TreePattern.match\<close>, with the two loops it contains: \<open>match_candidates\<close> is the loop over
  the permutations of the target's children, \<open>match_children\<close> the loop over the pattern's
  children for one candidate. The state is the cache binding of the syntax objects; it is
  returned as it is when the call returns or raises.
\<close>

fun match :: "evaluator \<Rightarrow> nat \<Rightarrow> tp_cache option \<Rightarrow> pattern \<Rightarrow> tnode \<Rightarrow> syn_state
                \<Rightarrow> syn_state \<times> (py_exc + pyval)"
  and match_candidates :: "evaluator \<Rightarrow> nat \<Rightarrow> tp_cache option \<Rightarrow> pattern list \<Rightarrow> tnode list list
                \<Rightarrow> pyval \<Rightarrow> syn_state \<Rightarrow> syn_state \<times> (py_exc + pyval)"
  and match_children :: "evaluator \<Rightarrow> nat \<Rightarrow> tp_cache option \<Rightarrow> pattern list \<Rightarrow> tnode list
                \<Rightarrow> pyval \<Rightarrow> syn_state \<Rightarrow> syn_state \<times> (py_exc + pyval)"
where
  "match ev root_syn cache (Pattern name syn cs) node st =
     (let st1 = st(syn := cache) in
      case is_local_match ev root_syn st1 (Pattern name syn cs) node of
        Inl e \<Rightarrow> (st1, Inl e)
      | Inr status \<Rightarrow>
          if truthy status \<and> cs \<noteq> [] then
            (if length (nchildren node) \<ge> length cs
             then match_candidates ev root_syn cache cs (permutations (nchildren node)) status st1
             else (st1, Inr (PyBool False)))
          else (st1, Inr status))"
| "match_candidates ev root_syn cache cs [] status st = (st, Inr status)"
| "match_candidates ev root_syn cache cs (candidate # rest) status st =
     (case match_children ev root_syn cache cs candidate (PyBool True) st of
        (st', Inl e) \<Rightarrow> (st', Inl e)
      | (st', Inr sub_status) \<Rightarrow>
          if truthy sub_status then (st', Inr sub_status)
          else match_candidates ev root_syn cache cs rest sub_status st')"
| "match_children ev root_syn cache [] candidate sub_status st = (st, Inr sub_status)"
| "match_children ev root_syn cache (p # ps) [] sub_status st = (st, Inl IndexError)"
| "match_children ev root_syn cache (p # ps) (c # candidate) sub_status st =
     (case match ev root_syn cache p c st of
        (st', Inl e) \<Rightarrow> (st', Inl e)
      | (st', Inr v) \<Rightarrow>
          if v = PyNone then match_children ev root_syn cache ps candidate sub_status st'
          else
            (case py_and sub_status v of
               Inl e \<Rightarrow> (st', Inl e)
             | Inr s \<Rightarrow> match_children ev root_syn cache ps candidate s st'))"

section \<open>Cascade match\<close>

text \<open>
  The result of a \<open>cascade_match\<close> call: the state, and the exception raised or the triple
  \<open>(status, self, matched_nodes)\<close> returned. \<open>self\<close> is part of the result because the loops
  over the children assign the pattern node returned by each recursive call to \<open>self\<close>.
  The outer \<open>option\<close> is \<open>None\<close> when the recursion depth allowed by the fuel is used up.
\<close>

type_synonym cm_result = "syn_state \<times> (py_exc + pyval \<times> pattern \<times> tnode list)"

type_synonym cm_call = "pattern \<Rightarrow> tnode \<Rightarrow> syn_state \<Rightarrow> cm_result option"

text \<open>
  The loop \<open>for i in range(len(self.children))\<close> over one candidate: \<open>is\<close> holds the
  indices that remain, \<open>self\<close> is the current value of the variable \<open>self\<close>, \<open>call\<close> is the
  recursive call of \<open>cascade_match\<close>. An index beyond the children of the current \<open>self\<close>
  or beyond the candidate raises \<open>IndexError\<close>.
\<close>

fun cascade_children :: "cm_call \<Rightarrow> pattern \<Rightarrow> nat list \<Rightarrow> tnode list \<Rightarrow> pyval \<Rightarrow> tnode list
                \<Rightarrow> syn_state \<Rightarrow> cm_result option" where
  "cascade_children call self [] candidate sub_status sub_nodes st =
     Some (st, Inr (sub_status, self, sub_nodes))"
| "cascade_children call self (i # is) candidate sub_status sub_nodes st =
     (if i \<ge> length (pchildren self) \<or> i \<ge> length candidate then Some (st, Inl IndexError)
      else
        (case call (pchildren self ! i) (candidate ! i) st of
           None \<Rightarrow> None
         | Some (st', Inl e) \<Rightarrow> Some (st', Inl e)
         | Some (st', Inr (v, self', sub_sub_nodes)) \<Rightarrow>
             if v = PyNone
             then cascade_children call self' is candidate sub_status (sub_nodes @ sub_sub_nodes) st'
             else
               (case py_and sub_status v of
                  Inl e \<Rightarrow> Some (st', Inl e)
                | Inr s \<Rightarrow> cascade_children call self' is candidate s (sub_nodes @ sub_sub_nodes) st')))"

text \<open>The loop over the permutations of the target's children.\<close>

fun cascade_candidates :: "cm_call \<Rightarrow> pattern \<Rightarrow> tnode list list \<Rightarrow> pyval \<Rightarrow> tnode list
                \<Rightarrow> syn_state \<Rightarrow> cm_result option" where
  "cascade_candidates call self [] status matched_nodes st =
     Some (st, Inr (status, self, matched_nodes))"
| "cascade_candidates call self (candidate # rest) status matched_nodes st =
     (case cascade_children call self [0..<length (pchildren self)] candidate (PyBool True) [] st of
        None \<Rightarrow> None
      | Some (st', Inl e) \<Rightarrow> Some (st', Inl e)
      | Some (st', Inr (sub_status, self', sub_nodes)) \<Rightarrow>
          if truthy sub_status then Some (st', Inr (sub_status, self', matched_nodes @ sub_nodes))
          else cascade_candidates call self' rest sub_status (matched_nodes @ sub_nodes) st')"

text \<open>
  The loop of the wildcard branch: the children of the current \<open>self\<close> against the same
  target node; here the status is combined without the test for \<open>None\<close>.
\<close>

fun cascade_same :: "cm_call \<Rightarrow> pattern \<Rightarrow> nat list \<Rightarrow> tnode \<Rightarrow> pyval \<Rightarrow> tnode list
                \<Rightarrow> syn_state \<Rightarrow> cm_result option" where
  "cascade_same call self [] node sub_status sub_nodes st =
     Some (st, Inr (sub_status, self, sub_nodes))"
| "cascade_same call self (i # is) node sub_status sub_nodes st =
     (if i \<ge> length (pchildren self) then Some (st, Inl IndexError)
      else
        (case call (pchildren self ! i) node st of
           None \<Rightarrow> None
         | Some (st', Inl e) \<Rightarrow> Some (st', Inl e)
         | Some (st', Inr (v, self', sub_sub_nodes)) \<Rightarrow>
             (case py_and sub_status v of
                Inl e \<Rightarrow> Some (st', Inl e)
              | Inr s \<Rightarrow> cascade_same call self' is node s (sub_nodes @ sub_sub_nodes) st')))"

text \<open>The last two lines: \<open>self.syntax.cache = None\<close> for the current \<open>self\<close>, then return.\<close>

definition cm_return :: "cm_result option \<Rightarrow> cm_result option" where
  "cm_return r =
     (case r of
        None \<Rightarrow> None
      | Some (st, Inl e) \<Rightarrow> Some (st, Inl e)
      | Some (st, Inr (status, self, matched_nodes)) \<Rightarrow>
          Some (st(psyntax self := None), Inr (status, self, matched_nodes)))"

text \<open>The body of \<open>cascade_match\<close>, with its recursive calls made through \<open>call\<close>.\<close>

definition cascade_body :: "cm_call \<Rightarrow> evaluator \<Rightarrow> nat \<Rightarrow> tp_cache option \<Rightarrow> pattern \<Rightarrow> tnode
                \<Rightarrow> syn_state \<Rightarrow> cm_result option" where
  "cascade_body call ev root_syn cache self node st =
     (let st1 = st(psyntax self := cache) in
      case is_local_match ev root_syn st1 self node of
        Inl e \<Rightarrow> Some (st1, Inl e)
      | Inr status \<Rightarrow>
          cm_return
            (if truthy status then
               (let matched_nodes = (if pname self \<noteq> ''*'' then [node] else []) in
                if pchildren self \<noteq> [] then
                  (if length (nchildren node) \<ge> length (pchildren self) then
                     cascade_candidates call self (permutations (nchildren node)) status
                       matched_nodes st1
                   else if pname self = ''*'' then
                     (case cascade_same call self [0..<length (pchildren self)] node
                             (PyBool True) [] st1 of
                        None \<Rightarrow> None
                      | Some (st2, Inl e) \<Rightarrow> Some (st2, Inl e)
                      | Some (st2, Inr (sub_status, self', sub_nodes)) \<Rightarrow>
                          Some (st2, Inr (sub_status, self', matched_nodes @ sub_nodes)))
                   else Some (st1, Inr (PyBool False, self, matched_nodes)))
                else Some (st1, Inr (status, self, matched_nodes)))
             else Some (st1, Inr (status, self, []))))"

text \<open>\<open>cascade_match\<close> with a bound on the depth of the recursion.\<close>

primrec cascade_match_fuel :: "nat \<Rightarrow> evaluator \<Rightarrow> nat \<Rightarrow> tp_cache option \<Rightarrow> cm_call" where
  "cascade_match_fuel 0 ev root_syn cache = (\<lambda>self node st. None)"
| "cascade_match_fuel (Suc fuel) ev root_syn cache =
     cascade_body (cascade_match_fuel fuel ev root_syn cache) ev root_syn cache"

text \<open>
  The height of a pattern; the recursion of \<open>cascade_match\<close> on a pattern never gets deeper
  than its height (lemma \<open>cascade_match_fuel_enough\<close> below), which is the fuel given here.
\<close>

fun pheight :: "pattern \<Rightarrow> nat" where
  "pheight (Pattern name syn cs) = Suc (fold max (map pheight cs) 0)"

definition cascade_match :: "evaluator \<Rightarrow> nat \<Rightarrow> tp_cache option \<Rightarrow> cm_call" where
  "cascade_match ev root_syn cache self node st =
     cascade_match_fuel (Suc (pheight self)) ev root_syn cache self node st"

text \<open>
  Two properties of a recursive call, used to show that the fuel given in \<open>cascade_match\<close>
  is enough: the call returns on every pattern of height below \<open>h\<close>, with a pattern node
  that is not higher than the one it was called on; and a call agrees with another one
  wherever the first returns.
\<close>

definition returns_below :: "cm_call \<Rightarrow> nat \<Rightarrow> bool" where
  "returns_below call h =
     (\<forall>q n st. pheight q < h \<longrightarrow>
        (\<exists>st' r. call q n st = Some (st', r)
           \<and> (\<forall>v s' ns. r = Inr (v, s', ns) \<longrightarrow> pheight s' \<le> pheight q)))"


section \<open>The search driver\<close>

text \<open>
  What a consumer that reads the generator \<open>find_match\<close> to its end observes: the nodes
  yielded, in order, the number of target nodes on which a match was run, the exception
  that ended the generator if one did, and the cache bindings left behind.
\<close>

record search_result =
  yielded :: "tnode list"
  visited :: nat
  raised :: "py_exc option"
  bindings :: syn_state

definition yield_first :: "tnode list \<Rightarrow> search_result \<Rightarrow> search_result" where
  "yield_first out r = r\<lparr>yielded := out @ yielded r, visited := Suc (visited r)\<rparr>"

text \<open>
  Plain mode: the loop over the nodes of the traversal. \<open>maxhits\<close> is an integer or \<open>None\<close>,
  \<open>num_hits\<close> the counter.
\<close>

fun find_match_loop :: "evaluator \<Rightarrow> nat \<Rightarrow> tp_cache option \<Rightarrow> pattern \<Rightarrow> int option
                \<Rightarrow> tnode list \<Rightarrow> int \<Rightarrow> syn_state \<Rightarrow> search_result" where
  "find_match_loop ev root_syn cache self maxhits [] num_hits st =
     \<lparr>yielded = [], visited = 0, raised = None, bindings = st\<rparr>"
| "find_match_loop ev root_syn cache self maxhits (node # rest) num_hits st =
     (case match ev root_syn cache self node st of
        (st', Inl e) \<Rightarrow> \<lparr>yielded = [], visited = 1, raised = Some e, bindings = st'\<rparr>
      | (st', Inr status) \<Rightarrow>
          (let num_hits' = (if truthy status then num_hits + 1 else num_hits);
               out = (if truthy status then [node] else [])
           in if (case maxhits of None \<Rightarrow> False | Some m \<Rightarrow> num_hits' \<ge> m)
              then \<lparr>yielded = out, visited = 1, raised = None, bindings = st'\<rparr>
              else yield_first out
                     (find_match_loop ev root_syn cache self maxhits rest num_hits' st')))"

definition find_match :: "evaluator \<Rightarrow> nat \<Rightarrow> pattern \<Rightarrow> tnode \<Rightarrow> int option \<Rightarrow> tp_cache option
                \<Rightarrow> strategy \<Rightarrow> syn_state \<Rightarrow> search_result" where
  "find_match ev root_syn self tree maxhits cache target_traversal st =
     find_match_loop ev root_syn cache self maxhits (traverse target_traversal tree) 0 st"

text \<open>
  Cascade mode. \<open>x in node\<close> for two nodes of the tree library is true when \<open>x\<close> is among
  the descendants of \<open>node\<close>; \<open>node.detach()\<close> removes the node from the children of its
  parent, and does nothing to a tree of which the node is the root. The nodes of a tree have
  distinct identities.
\<close>

definition node_contains :: "tnode \<Rightarrow> tnode \<Rightarrow> bool" where
  "node_contains node x = (x \<in> set (get_descendants node))"

fun detach :: "tnode \<Rightarrow> tnode \<Rightarrow> tnode" where
  "detach r (TNode i nm fs cs) =
     TNode i nm fs (map (detach r) (filter (\<lambda>c. nid c \<noteq> nid r) cs))"

text \<open>The descendants of a pattern node; only their number is used.\<close>

fun pattern_descendants :: "pattern \<Rightarrow> pattern list" where
  "pattern_descendants (Pattern name syn cs) =
     concat (map (\<lambda>c. c # pattern_descendants c) cs)"

text \<open>
  What one pass of the \<open>for node in tree.traverse("preorder")\<close> loop leaves: the variables
  \<open>matched_root_node\<close> and \<open>num_hits\<close>, the node yielded if one was, the exception raised
  if one was, and the cache bindings.
\<close>

record scan_result =
  scan_root :: "tnode option"
  scan_hits :: nat
  scan_yield :: "tnode list"
  scan_raised :: "py_exc option"
  scan_bindings :: syn_state

fun cascade_scan :: "evaluator \<Rightarrow> nat \<Rightarrow> tp_cache option \<Rightarrow> nat \<Rightarrow> tnode list \<Rightarrow> pattern
                \<Rightarrow> tnode option \<Rightarrow> nat \<Rightarrow> syn_state \<Rightarrow> scan_result option" where
  "cascade_scan ev root_syn cache pattern_length [] current_pattern_node matched_root_node
       num_hits st =
     Some \<lparr>scan_root = matched_root_node, scan_hits = num_hits, scan_yield = [],
           scan_raised = None, scan_bindings = st\<rparr>"
| "cascade_scan ev root_syn cache pattern_length (node # rest) current_pattern_node
       matched_root_node num_hits st =
     (case cascade_match ev root_syn cache current_pattern_node node st of
        None \<Rightarrow> None
      | Some (st', Inl e) \<Rightarrow>
          Some \<lparr>scan_root = matched_root_node, scan_hits = num_hits, scan_yield = [],
                scan_raised = Some e, scan_bindings = st'\<rparr>
      | Some (st', Inr (status, pattern_node, matched_nodes)) \<Rightarrow>
          (let root' = (case matched_root_node of
                          Some r \<Rightarrow> Some r
                        | None \<Rightarrow> (case matched_nodes of [] \<Rightarrow> None | m # ms \<Rightarrow> Some m))
           in if truthy status then
                (if matched_nodes = [] then
                   Some \<lparr>scan_root = root', scan_hits = num_hits + 1, scan_yield = [],
                         scan_raised = Some IndexError, scan_bindings = st'\<rparr>
                 else
                   (case root' of
                      None \<Rightarrow>
                        Some \<lparr>scan_root = root', scan_hits = num_hits + 1, scan_yield = [],
                              scan_raised = Some TypeError, scan_bindings = st'\<rparr>
                    | Some r \<Rightarrow>
                        Some \<lparr>scan_root = root', scan_hits = num_hits + 1,
                              scan_yield = (if node_contains r (last matched_nodes) then [r] else []),
                              scan_raised = None, scan_bindings = st'\<rparr>))
              else if num_hits \<ge> pattern_length then
                Some \<lparr>scan_root = root', scan_hits = num_hits, scan_yield = [],
                      scan_raised = None, scan_bindings = st'\<rparr>
              else cascade_scan ev root_syn cache pattern_length rest pattern_node root'
                     num_hits st'))"

text \<open>
  The \<open>while\<close> loop of cascade mode; \<open>cnt\<close> is the variable \<open>count\<close>. The result holds the
  nodes yielded, the number of passes over the tree (in \<open>visited\<close>), the exception that
  ended the generator if one did, and the cache bindings.
\<close>

function find_match_cascade_loop ::
  "evaluator \<Rightarrow> nat \<Rightarrow> tp_cache option \<Rightarrow> pattern \<Rightarrow> nat \<Rightarrow> tnode \<Rightarrow> tnode option \<Rightarrow> nat
     \<Rightarrow> nat \<Rightarrow> syn_state \<Rightarrow> search_result option" where
  "find_match_cascade_loop ev root_syn cache self pattern_length tree matched_root_node cnt
       num_hits st =
     (if pattern_length \<le> length (get_descendants tree) \<and> cnt \<le> 5 then
        (if matched_root_node = None \<and> cnt \<noteq> 0 then
           Some \<lparr>yielded = [], visited = 0, raised = None, bindings = st\<rparr>
         else
           (let tree' = (case matched_root_node of None \<Rightarrow> tree | Some r \<Rightarrow> detach r tree) in
            case cascade_scan ev root_syn cache pattern_length (preorder tree') self None
                   num_hits st of
              None \<Rightarrow> None
            | Some sc \<Rightarrow>
                (if scan_raised sc \<noteq> None then
                   Some \<lparr>yielded = scan_yield sc, visited = 1, raised = scan_raised sc,
                         bindings = scan_bindings sc\<rparr>
                 else
                   map_option (yield_first (scan_yield sc))
                     (find_match_cascade_loop ev root_syn cache self pattern_length tree'
                        (scan_root sc) (cnt + 1) (scan_hits sc) (scan_bindings sc)))))
      else Some \<lparr>yielded = [], visited = 0, raised = None, bindings = st\<rparr>)"
  by pat_completeness auto
termination
  by (relation "measure (\<lambda>(ev, root_syn, cache, self, pattern_length, tree, matched_root_node,
        cnt, num_hits, st). 6 - cnt)") auto

declare find_match_cascade_loop.simps [simp del]

definition find_match_cascade :: "evaluator \<Rightarrow> nat \<Rightarrow> pattern \<Rightarrow> tnode \<Rightarrow> tp_cache option
                \<Rightarrow> syn_state \<Rightarrow> search_result option" where
  "find_match_cascade ev root_syn self tree cache st =
     find_match_cascade_loop ev root_syn cache self (length (pattern_descendants self)) tree
       None 0 0 st"

text \<open>
  The anchored matches that the search is about: \<open>match\<close> run at each node of the traversal
  in turn, each call in the state the call before left, up to the first call that raises.
  A hit is a call that returned a true status.
\<close>

fun match_run :: "evaluator \<Rightarrow> nat \<Rightarrow> tp_cache option \<Rightarrow> pattern \<Rightarrow> tnode list \<Rightarrow> syn_state
                \<Rightarrow> (tnode \<times> (py_exc + pyval)) list" where
  "match_run ev root_syn cache self [] st = []"
| "match_run ev root_syn cache self (node # rest) st =
     (case match ev root_syn cache self node st of
        (st', Inl e) \<Rightarrow> [(node, Inl e)]
      | (st', Inr status) \<Rightarrow> (node, Inr status) # match_run ev root_syn cache self rest st')"

fun is_hit :: "tnode \<times> (py_exc + pyval) \<Rightarrow> bool" where
  "is_hit (node, Inl e) = False"
| "is_hit (node, Inr status) = truthy status"

definition hits :: "(tnode \<times> (py_exc + pyval)) list \<Rightarrow> tnode list" where
  "hits run = map fst (filter is_hit run)"

text \<open>The shortest prefix of a run that holds \<open>k\<close> hits, the whole run if there are fewer.\<close>

fun upto_hits :: "nat \<Rightarrow> (tnode \<times> (py_exc + pyval)) list \<Rightarrow> (tnode \<times> (py_exc + pyval)) list" where
  "upto_hits k [] = []"
| "upto_hits k (x # xs) =
     (if is_hit x then (if k \<le> 1 then [x] else x # upto_hits (k - 1) xs)
      else x # upto_hits k xs)"

text \<open>The exception of the last call of a run, if it raised.\<close>

fun run_error :: "(tnode \<times> (py_exc + pyval)) list \<Rightarrow> py_exc option" where
  "run_error [] = None"
| "run_error [(node, Inl e)] = Some e"
| "run_error [(node, Inr status)] = None"
| "run_error (x # y # ys) = run_error (y # ys)"

text \<open>
  A sample evaluator: what Python returns on the expressions used in the examples below.
  \<open>is_big\<close> is a helper that only the syntax object number 0 defines; the comparison with
  the broken literal \<open>"a"b"\<close> does not parse; every other text is treated as an unknown name.
\<close>

definition ev_sample :: evaluator where
  "ev_sample syn binding constraint t =
     (if constraint = ''__target_node.name'' then Inr (PyStr (nname t))
      else if constraint = name_test_prefix @ [dquote] @ ''a'' @ [dquote] @ ''b'' @ [dquote]
        then Inl SyntaxError
      else if constraint = ''is_big(__target_node)''
        then (if syn = 0 then Inr (PyBool (length (nchildren t) > 1)) else Inl NameError)
      else Inl NameError)"

definition pat_ab :: pattern where
  "pat_ab = Pattern [] 0 [Pattern ''a'' 1 [], Pattern ''b'' 2 []]"


definition wild_bb :: pattern where
  "wild_bb = Pattern ''*'' 0 [Pattern ''b'' 1 [], Pattern ''b'' 2 []]"

definition pat_chain :: pattern where
  "pat_chain = Pattern ''r'' 0 [Pattern ''a'' 1 []]"

definition pat_xy :: pattern where
  "pat_xy = Pattern [] 0 [Pattern ''x'' 1 [], Pattern ''y'' 2 []]"

definition no_binding :: syn_state where
  "no_binding = (\<lambda>syn. None)"

definition quoted_name :: string where
  "quoted_name = ''a'' @ [dquote] @ ''b''"

section \<open>Coverage tests\<close>

lemma count_found_filter:
  "count_found names vals found =
     found + length (filter (\<lambda>sp. case sp of None \<Rightarrow> False | Some s \<Rightarrow> s \<in> set names) vals)"
  by (induction vals arbitrary: found) auto

lemma count_found_empty: "count_found [] vals 0 = 0"
  by (simp add: count_found_filter split: option.split)

lemma count_found_distinct:
  assumes "distinct vals" and "distinct names"
  shows "count_found names vals 0 = length names \<longleftrightarrow> Some ` set names \<subseteq> set vals"
proof -
  let ?P = "\<lambda>sp. case sp of None \<Rightarrow> False | Some s \<Rightarrow> s \<in> set names"
  have eq: "{v \<in> set vals. ?P v} = Some ` set names \<inter> set vals"
    by (auto split: option.splits)
  have "count_found names vals 0 = card {v \<in> set vals. ?P v}"
    using assms(1) by (simp add: count_found_filter distinct_length_filter Collect_conj_eq Int_commute)
  also have "\<dots> = card (Some ` set names \<inter> set vals)"
    by (simp only: eq)
  finally have c: "count_found names vals 0 = card (Some ` set names \<inter> set vals)" .
  have n: "length names = card (Some ` set names)"
    using assms(2) by (simp add: card_image distinct_card)
  show ?thesis
  proof
    assume "count_found names vals 0 = length names"
    then have "card (Some ` set names \<inter> set vals) = card (Some ` set names)"
      using c n by simp
    then have "Some ` set names \<inter> set vals = Some ` set names"
      by (intro card_subset_eq) auto
    then show "Some ` set names \<subseteq> set vals" by blast
  next
    assume "Some ` set names \<subseteq> set vals"
    then have "Some ` set names \<inter> set vals = Some ` set names" by blast
    then show "count_found names vals 0 = length names" using c n by simp
  qed
qed

text \<open>
  When no two leaves below the node carry the same species, \<open>contains_species\<close> without a
  cache is the coverage test: every required species occurs at a leaf.
\<close>

lemma contains_species_distinct:
  assumes "distinct (map (getattr_node ''species'') (iter_leaves t))"
  shows "contains_species None t (NameColl xs) =
           Inr (\<forall>s \<in> set xs. Some s \<in> getattr_node ''species'' ` set (iter_leaves t))"
proof -
  have "count_found (remdups xs) (map (getattr_node ''species'') (iter_leaves t)) 0
          = length (remdups xs)
        \<longleftrightarrow> Some ` set (remdups xs) \<subseteq> set (map (getattr_node ''species'') (iter_leaves t))"
    using assms by (intro count_found_distinct) simp_all
  then show ?thesis
    by (auto simp: contains_species_def get_cached_attr_def fake_get_cached_attr_def
        on_result_def Let_def)
qed

text \<open>
  C2: on \<open>tree_aa\<close>, whose two leaves both have species \<open>A\<close> and name \<open>a\<close>, the required
  set \<open>{A}\<close> (resp. \<open>{a}\<close>) is covered by the leaves and yet \<open>contains_species\<close> (resp.
  \<open>contains_leaves\<close>) returns false, because each of the two leaves is counted; and the
  required set \<open>{A, B}\<close> is not covered and yet \<open>contains_species\<close> returns true.
\<close>

theorem contains_counts_duplicates:
  "contains_species None tree_aa (NameColl [''A'']) = Inr False
   \<and> contains_leaves None tree_aa (NameColl [''a'']) = Inr False
   \<and> contains_species None tree_aa (NameColl [''A'', ''B'']) = Inr True
   \<and> map (getattr_node ''species'') (iter_leaves tree_aa) = [Some ''A'', Some ''A'']
   \<and> map (getattr_node ''name'') (iter_leaves tree_aa) = [Some ''a'', Some ''a'']"
  by (simp add: contains_species_def contains_leaves_def get_cached_attr_def
      fake_get_cached_attr_def on_result_def tree_aa_def leaf_a1_def leaf_a2_def
      getattr_node_def)

text \<open>
  C10: with an empty collection of required names, \<open>contains_species\<close> and
  \<open>contains_leaves\<close> return true whatever the leaves of the target node are: always without
  a cache, and with a cache whenever the cache knows the target node.
\<close>

theorem contains_empty_collection:
  "contains_species None t (NameColl []) = Inr True
   \<and> contains_leaves None t (NameColl []) = Inr True
   \<and> (nid t \<in> dom (leaves_cache c) \<longrightarrow>
        contains_species (Some c) t (NameColl []) = Inr True
        \<and> contains_leaves (Some c) t (NameColl []) = Inr True)"
  by (auto simp: contains_species_def contains_leaves_def get_cached_attr_def
      cache_get_cached_attr_def dict_get_def on_result_def count_found_empty)

theorem contains_empty_collection_witness:
  "nid tree_ab \<in> dom (leaves_cache cache_ab)
   \<and> contains_species (Some cache_ab) tree_ab (NameColl []) = Inr True
   \<and> contains_leaves (Some cache_ab) tree_ab (NameColl []) = Inr True"
proof -
  have d: "nid tree_ab \<in> dom (leaves_cache cache_ab)"
    by (simp add: cache_ab_def)
  show ?thesis
    using d contains_empty_collection [of tree_ab cache_ab] by simp
qed

section \<open>Local evaluation\<close>

lemma name_test_plain:
  assumes "list_all plain_char name"
  shows "name_test (name_test_prefix @ [dquote] @ name @ [dquote]) = Some name"
  using assms by (simp add: name_test_def)

lemma replace_at_nonempty: "CHR ''@'' \<in> set name \<Longrightarrow> replace_at name \<noteq> []"
  by (induction name) auto

lemma is_local_match_returns_value:
  assumes "constraint_of (pname p) \<noteq> []"
    and "py_eval ev (psyntax p) (st (psyntax p)) (constraint_of (pname p)) t = Inr v"
  shows "is_local_match ev root_syn st p t = Inr v"
  using assms by (simp add: is_local_match_def Let_def)

text \<open>
  For a name without a double quote, a backslash, a line break or a NUL, the literal
  constraint is the test of the target's name against the text of the name.
\<close>

lemma is_local_match_plain_name:
  assumes "pname p \<noteq> []" and "CHR ''@'' \<notin> set (pname p)" and "pname p \<noteq> ''*''"
    and "list_all plain_char (pname p)"
  shows "is_local_match ev root_syn st p t = Inr (PyBool (nname t = pname p))"
proof -
  have c: "constraint_of (pname p) = name_test_prefix @ [dquote] @ pname p @ [dquote]"
    using assms(1-3) by (simp add: constraint_of_def)
  have "py_eval ev (psyntax p) (st (psyntax p)) (constraint_of (pname p)) t
          = Inr (PyBool (nname t = pname p))"
    unfolding c py_eval_def using name_test_plain [OF assms(4)] by simp
  moreover have "constraint_of (pname p) \<noteq> []"
    unfolding c by simp
  ultimately show ?thesis
    by (rule is_local_match_returns_value [rotated])
qed

text \<open>
  C6: the pattern node named \<open>a"b\<close> has a non-empty expression without self-reference that
  is not the wildcard, and the target node has that very name; the constraint built from it
  is the text \<open>__target_node.name == "a"b"\<close>, which is not the comparison with the name, and
  its evaluation raises instead of returning true.
\<close>

theorem literal_name_with_quote:
  "quoted_name \<noteq> [] \<and> CHR ''@'' \<notin> set quoted_name \<and> quoted_name \<noteq> ''*''
   \<and> nname (TNode 5 quoted_name [] []) = quoted_name
   \<and> constraint_of quoted_name = ''__target_node.name == '' @ [dquote] @ ''a'' @ [dquote] @ ''b'' @ [dquote]
   \<and> is_local_match ev_sample 0 no_binding (Pattern quoted_name 0 []) (TNode 5 quoted_name [] [])
       = Inl SyntaxError"
  by (simp add: quoted_name_def dquote_def is_local_match_def constraint_of_def py_eval_def
      name_test_def name_test_prefix_def plain_char_def ev_sample_def)

text \<open>
  C4: the expression \<open>@.name\<close> evaluates to the name of the target node, a string, and
  \<open>is_local_match\<close> returns that string as the status: nothing is raised.
\<close>

theorem non_boolean_is_returned:
  "py_eval ev_sample 0 None (constraint_of ''@.name'') leaf_b = Inr (PyStr ''b'')
   \<and> is_local_match ev_sample 0 no_binding (Pattern ''@.name'' 0 []) leaf_b = Inr (PyStr ''b'')"
  by (simp add: is_local_match_def constraint_of_def py_eval_def name_test_def
      name_test_prefix_def ev_sample_def leaf_b_def no_binding_def)

text \<open>
  C5: when the first evaluation of the constraint raises a \<open>NameError\<close>, the constraint is
  evaluated again with the syntax object of the root pattern node; the value of the retry is
  the status, an exception of the retry that is not a \<open>NameError\<close> propagates, and the
  \<open>NameError\<close> of \<open>is_local_match\<close> is raised exactly when both evaluations raise a
  \<open>NameError\<close>.
\<close>

theorem name_error_retries_root_scope:
  fixes ev :: evaluator
  defines "own \<equiv> \<lambda>st p t. py_eval ev (psyntax p) (st (psyntax p)) (constraint_of (pname p)) t"
    and "retry \<equiv> \<lambda>root_syn st p t. py_eval ev root_syn (st root_syn) (constraint_of (pname p)) t"
  shows "(constraint_of (pname p) \<noteq> [] \<and> own st p t = Inl e \<and> is_NameError e \<longrightarrow>
            is_local_match ev root_syn st p t =
              (case retry root_syn st p t of
                 Inr v \<Rightarrow> Inr v
               | Inl e' \<Rightarrow> if is_NameError e' then Inl UnboundName else Inl e'))
         \<and> (is_local_match ev root_syn st p t = Inl UnboundName \<longleftrightarrow>
              constraint_of (pname p) \<noteq> []
              \<and> (\<exists>e1. own st p t = Inl e1 \<and> is_NameError e1)
              \<and> (\<exists>e2. retry root_syn st p t = Inl e2 \<and> is_NameError e2))"
proof (intro conjI impI)
  assume "constraint_of (pname p) \<noteq> [] \<and> own st p t = Inl e \<and> is_NameError e"
  then show "is_local_match ev root_syn st p t =
              (case retry root_syn st p t of
                 Inr v \<Rightarrow> Inr v
               | Inl e' \<Rightarrow> if is_NameError e' then Inl UnboundName else Inl e')"
    by (cases e) (simp_all add: is_local_match_def Let_def own_def retry_def)
next
  show "is_local_match ev root_syn st p t = Inl UnboundName \<longleftrightarrow>
          constraint_of (pname p) \<noteq> []
          \<and> (\<exists>e1. own st p t = Inl e1 \<and> is_NameError e1)
          \<and> (\<exists>e2. retry root_syn st p t = Inl e2 \<and> is_NameError e2)"
  proof (cases "constraint_of (pname p) = []")
    case True
    then show ?thesis by (simp add: is_local_match_def)
  next
    case False
    show ?thesis
    proof (cases "own st p t")
      case (Inr v)
      then show ?thesis using False by (simp add: is_local_match_def Let_def own_def)
    next
      case (Inl e1)
      show ?thesis
      proof (cases "is_NameError e1")
        case True
        then have nv: "\<not> is_ValueError e1" "e1 \<noteq> AttributeError" "e1 \<noteq> IndexError"
          by (cases e1; simp)+
        show ?thesis
          using False Inl True nv
          by (cases "retry root_syn st p t")
            (auto simp: is_local_match_def Let_def own_def retry_def)
      next
        case nn: False
        then have "e1 \<noteq> UnboundName" by auto
        then show ?thesis
          using False Inl nn
          by (auto simp: is_local_match_def Let_def own_def)
      qed
    qed
  qed
qed

theorem name_error_retries_root_scope_witness:
  "constraint_of ''is_big(@)'' \<noteq> []
   \<and> py_eval ev_sample 1 None (constraint_of ''is_big(@)'') tree_ab = Inl NameError
   \<and> is_NameError NameError
   \<and> is_local_match ev_sample 0 no_binding (Pattern ''is_big(@)'' 1 []) tree_ab = Inr (PyBool True)
   \<and> is_local_match ev_sample 1 no_binding (Pattern ''is_big(@)'' 1 []) tree_ab = Inl UnboundName"
proof -
  have c: "constraint_of ''is_big(@)'' = ''is_big(__target_node)''"
    by (simp add: constraint_of_def)
  have own: "py_eval ev_sample 1 None (constraint_of ''is_big(@)'') tree_ab = Inl NameError"
    by (simp add: c py_eval_def name_test_def name_test_prefix_def ev_sample_def)
  have root: "py_eval ev_sample 0 None (constraint_of ''is_big(@)'') tree_ab = Inr (PyBool True)"
    by (simp add: c py_eval_def name_test_def name_test_prefix_def ev_sample_def tree_ab_def)
  have ne: "constraint_of ''is_big(@)'' \<noteq> []"
    by (simp add: c)
  have h: "constraint_of (pname (Pattern ''is_big(@)'' 1 [])) \<noteq> []
       \<and> py_eval ev_sample (psyntax (Pattern ''is_big(@)'' 1 []))
           (no_binding (psyntax (Pattern ''is_big(@)'' 1 [])))
           (constraint_of (pname (Pattern ''is_big(@)'' 1 []))) tree_ab = Inl NameError
       \<and> is_NameError NameError"
    using ne own by (simp add: no_binding_def)
  note t0 = name_error_retries_root_scope
    [of "Pattern ''is_big(@)'' 1 []" ev_sample no_binding tree_ab NameError 0]
  note t1 = name_error_retries_root_scope
    [of "Pattern ''is_big(@)'' 1 []" ev_sample no_binding tree_ab NameError 1]
  have r0: "is_local_match ev_sample 0 no_binding (Pattern ''is_big(@)'' 1 []) tree_ab
              = Inr (PyBool True)"
    using t0 h root by (simp add: no_binding_def)
  have r1: "is_local_match ev_sample 1 no_binding (Pattern ''is_big(@)'' 1 []) tree_ab
              = Inl UnboundName"
    using t1 h own by (simp add: no_binding_def)
  show ?thesis using ne own r0 r1 by simp
qed

section \<open>The cache against direct traversal\<close>

lemma sort_mset_eq: "mset xs = mset ys \<Longrightarrow> sort xs = sort ys"
  by (rule properties_for_sort) simp_all

lemma count_found_mset_eq:
  "mset xs = mset ys \<Longrightarrow> count_found names xs 0 = count_found names ys 0"
proof -
  assume h: "mset xs = mset ys"
  let ?P = "\<lambda>sp. case sp of None \<Rightarrow> False | Some s \<Rightarrow> s \<in> set names"
  have "length (filter ?P xs) = size (filter_mset ?P (mset xs))"
    by (simp only: mset_filter [symmetric] size_mset)
  also have "\<dots> = size (filter_mset ?P (mset ys))" using h by simp
  also have "\<dots> = length (filter ?P ys)"
    by (simp only: mset_filter [symmetric] size_mset)
  finally show ?thesis by (simp add: count_found_filter)
qed

lemma remdups_length_mset_eq: "mset xs = mset ys \<Longrightarrow> length (remdups xs) = length (remdups ys)"
  by (metis length_remdups_card_conv mset_eq_setD)

lemma count_list_mset_eq: "mset xs = mset ys \<Longrightarrow> count_list xs v = count_list ys v"
  by (metis count_mset)

lemma cached_attr_mset:
  assumes "cache_covers c tree" and "n \<in> set (preorder tree)"
  shows "\<exists>vals. get_cached_attr (Some c) attr_name n leaves_only = Inr vals
           \<and> get_cached_attr None attr_name n leaves_only
               = Inr (fake_get_cached_attr attr_name n leaves_only)
           \<and> mset vals = mset (fake_get_cached_attr attr_name n leaves_only)"
proof -
  from assms obtain ls ns where
    l: "leaves_cache c (nid n) = Some ls" "mset ls = mset (iter_leaves n)" and
    a: "all_node_cache c (nid n) = Some ns" "mset ns = mset (levelorder n)"
    unfolding cache_covers_def by (fastforce split: option.splits)
  have "mset (map (getattr_node attr_name) ls) = mset (map (getattr_node attr_name) (iter_leaves n))"
    using l(2) by (metis mset_map)
  moreover have "mset (map (getattr_node attr_name) ns) = mset (map (getattr_node attr_name) (levelorder n))"
    using a(2) by (metis mset_map)
  ultimately show ?thesis
    using l(1) a(1)
    by (cases leaves_only)
      (simp_all add: get_cached_attr_def cache_get_cached_attr_def dict_get_def
        fake_get_cached_attr_def)
qed

text \<open>
  C8: with a cache that holds the content of the unmodified tree, every helper returns at
  every node of the tree what it returns without a cache.
\<close>

theorem cache_is_transparent:
  assumes "cache_covers c tree" and "n \<in> set (preorder tree)"
  shows "leaves (Some c) n = leaves None n
       \<and> descendants (Some c) n = descendants None n
       \<and> species (Some c) n = species None n
       \<and> contains_species (Some c) n names = contains_species None n names
       \<and> contains_leaves (Some c) n names = contains_leaves None n names
       \<and> n_species (Some c) n = n_species None n
       \<and> n_leaves (Some c) n = n_leaves None n
       \<and> n_duplications (Some c) n = n_duplications None n
       \<and> n_speciations (Some c) n = n_speciations None n"
proof -
  note ca = cached_attr_mset [OF assms]
  from ca [of "''name''" True] have 1: "leaves (Some c) n = leaves None n"
    by (auto simp: leaves_def on_result_def dest: sort_mset_eq)
  from ca [of "''name''" False] have 2: "descendants (Some c) n = descendants None n"
    by (auto simp: descendants_def on_result_def dest: sort_mset_eq)
  from ca [of "''species''" True] have 3: "species (Some c) n = species None n"
    by (auto simp: species_def on_result_def dest: mset_eq_setD)
  have 4: "contains_species (Some c) n names = contains_species None n names"
  proof -
    from ca [of "''species''" True] obtain vals where
      g: "get_cached_attr (Some c) ''species'' n True = Inr vals"
        "get_cached_attr None ''species'' n True = Inr (fake_get_cached_attr ''species'' n True)"
      and m: "mset vals = mset (fake_get_cached_attr ''species'' n True)"
      by blast
    show ?thesis
      by (simp add: contains_species_def on_result_def Let_def g count_found_mset_eq [OF m])
  qed
  have 5: "contains_leaves (Some c) n names = contains_leaves None n names"
  proof -
    from ca [of "''name''" True] obtain vals where
      g: "get_cached_attr (Some c) ''name'' n True = Inr vals"
        "get_cached_attr None ''name'' n True = Inr (fake_get_cached_attr ''name'' n True)"
      and m: "mset vals = mset (fake_get_cached_attr ''name'' n True)"
      by blast
    show ?thesis
      by (simp add: contains_leaves_def on_result_def Let_def g count_found_mset_eq [OF m])
  qed
  from ca [of "''species''" True] have 6: "n_species (Some c) n = n_species None n"
    by (auto simp: n_species_def on_result_def dest: remdups_length_mset_eq)
  from assms have 7: "n_leaves (Some c) n = n_leaves None n"
    unfolding cache_covers_def
    by (fastforce simp: n_leaves_def get_leaves_def cache_get_leaves_def fake_get_leaves_def
        dict_get_def on_result_def split: option.splits dest: mset_eq_length)
  from ca [of "''evoltype''" False] have 8: "n_duplications (Some c) n = n_duplications None n"
    by (auto simp: n_duplications_def on_result_def dest: count_list_mset_eq)
  from ca [of "''evoltype''" False] have 9: "n_speciations (Some c) n = n_speciations None n"
    by (auto simp: n_speciations_def on_result_def dest: count_list_mset_eq)
  from 1 2 3 4 5 6 7 8 9 show ?thesis by simp
qed

theorem cache_is_transparent_witness:
  "cache_covers cache_ab tree_ab \<and> tree_ab \<in> set (preorder tree_ab)
   \<and> leaves (Some cache_ab) tree_ab = leaves None tree_ab
   \<and> species (Some cache_ab) tree_ab = species None tree_ab
   \<and> contains_species (Some cache_ab) tree_ab (NameColl [''A'', ''B''])
       = contains_species None tree_ab (NameColl [''A'', ''B''])
   \<and> n_duplications (Some cache_ab) tree_ab = n_duplications None tree_ab"
proof -
  have c: "cache_covers cache_ab tree_ab"
    by (simp add: cache_covers_def cache_ab_def tree_ab_def leaf_a1_def leaf_b_def levelorder_def)
  have m: "tree_ab \<in> set (preorder tree_ab)"
    by (simp add: tree_ab_def)
  show ?thesis
    using c m cache_is_transparent [OF c m, of "NameColl [''A'', ''B'']"] by simp
qed

section \<open>The recursion of cascade match ends\<close>

lemma le_fold_max: "(x::nat) \<in> set xs \<Longrightarrow> x \<le> fold max xs a"
proof (induction xs arbitrary: a)
  case Nil
  then show ?case by simp
next
  case (Cons y ys)
  have ge: "b \<le> fold max ys b" for b :: nat
    by (induction ys arbitrary: b) (auto intro: order_trans [OF max.cobounded2])
  show ?case
  proof (cases "x = y")
    case True
    then show ?thesis using ge [of "max y a"] by simp
  next
    case False
    with Cons show ?thesis by simp
  qed
qed

lemma pheight_child: "i < length (pchildren p) \<Longrightarrow> pheight (pchildren p ! i) < pheight p"
proof (cases p)
  case (Pattern name syn cs)
  assume "i < length (pchildren p)"
  then have "pheight (cs ! i) \<in> set (map pheight cs)"
    using Pattern by simp
  then have "pheight (cs ! i) \<le> fold max (map pheight cs) 0"
    by (rule le_fold_max)
  then show ?thesis using Pattern by simp
qed

lemma cascade_children_returns:
  assumes "returns_below call h" and "pheight self \<le> h"
  shows "\<exists>st' r. cascade_children call self is candidate sub_status sub_nodes st = Some (st', r)
           \<and> (\<forall>v s' ns. r = Inr (v, s', ns) \<longrightarrow> pheight s' \<le> pheight self)"
  using assms(2)
proof (induction "is" arbitrary: self sub_status sub_nodes st)
  case Nil
  then show ?case by simp
next
  case (Cons i "is")
  show ?case
  proof (cases "i \<ge> length (pchildren self) \<or> i \<ge> length candidate")
    case True
    then show ?thesis by auto
  next
    case False
    then have lt: "pheight (pchildren self ! i) < pheight self"
      by (simp add: pheight_child)
    with Cons.prems have "pheight (pchildren self ! i) < h" by simp
    with assms(1) obtain st' r where
      c: "call (pchildren self ! i) (candidate ! i) st = Some (st', r)" and
      b: "\<forall>v s' ns. r = Inr (v, s', ns) \<longrightarrow> pheight s' \<le> pheight (pchildren self ! i)"
      unfolding returns_below_def by blast
    show ?thesis
    proof (cases r)
      case (Inl e)
      then show ?thesis using False c by simp
    next
      case (Inr t)
      then obtain v self' nodes where t: "r = Inr (v, self', nodes)"
        by (cases t) auto
      with b have h': "pheight self' \<le> pheight (pchildren self ! i)" by simp
      then have le: "pheight self' \<le> h" "pheight self' \<le> pheight self"
        using lt Cons.prems by simp_all
      note ih = Cons.IH [OF le(1)]
      show ?thesis
      proof (cases "v = PyNone")
        case True
        with ih [of sub_status "sub_nodes @ nodes" st'] le(2) show ?thesis
          using False c t by (auto intro: order_trans)
      next
        case nn: False
        show ?thesis
        proof (cases "py_and sub_status v")
          case (Inl e)
          then show ?thesis using False c t nn by simp
        next
          case (Inr s)
          with ih [of s "sub_nodes @ nodes" st'] le(2) show ?thesis
            using False c t nn by (auto intro: order_trans)
        qed
      qed
    qed
  qed
qed

lemma cascade_same_returns:
  assumes "returns_below call h" and "pheight self \<le> h"
  shows "\<exists>st' r. cascade_same call self is node sub_status sub_nodes st = Some (st', r)
           \<and> (\<forall>v s' ns. r = Inr (v, s', ns) \<longrightarrow> pheight s' \<le> pheight self)"
  using assms(2)
proof (induction "is" arbitrary: self sub_status sub_nodes st)
  case Nil
  then show ?case by simp
next
  case (Cons i "is")
  show ?case
  proof (cases "i \<ge> length (pchildren self)")
    case True
    then show ?thesis by auto
  next
    case False
    then have lt: "pheight (pchildren self ! i) < pheight self"
      by (simp add: pheight_child)
    with Cons.prems have "pheight (pchildren self ! i) < h" by simp
    with assms(1) obtain st' r where
      c: "call (pchildren self ! i) node st = Some (st', r)" and
      b: "\<forall>v s' ns. r = Inr (v, s', ns) \<longrightarrow> pheight s' \<le> pheight (pchildren self ! i)"
      unfolding returns_below_def by blast
    show ?thesis
    proof (cases r)
      case (Inl e)
      then show ?thesis using False c by simp
    next
      case (Inr t)
      then obtain v self' nodes where t: "r = Inr (v, self', nodes)"
        by (cases t) auto
      with b have h': "pheight self' \<le> pheight (pchildren self ! i)" by simp
      then have le: "pheight self' \<le> h" "pheight self' \<le> pheight self"
        using lt Cons.prems by simp_all
      note ih = Cons.IH [OF le(1)]
      show ?thesis
      proof (cases "py_and sub_status v")
        case (Inl e)
        then show ?thesis using False c t by simp
      next
        case (Inr s)
        with ih [of s "sub_nodes @ nodes" st'] le(2) show ?thesis
          using False c t by (auto intro: order_trans)
      qed
    qed
  qed
qed

lemma cascade_candidates_returns:
  assumes "returns_below call h" and "pheight self \<le> h"
  shows "\<exists>st' r. cascade_candidates call self cands status matched_nodes st = Some (st', r)
           \<and> (\<forall>v s' ns. r = Inr (v, s', ns) \<longrightarrow> pheight s' \<le> pheight self)"
  using assms(2)
proof (induction cands arbitrary: self status matched_nodes st)
  case Nil
  then show ?case by simp
next
  case (Cons candidate rest)
  from cascade_children_returns [OF assms(1) Cons.prems] obtain st' r where
    c: "cascade_children call self [0..<length (pchildren self)] candidate (PyBool True) [] st
          = Some (st', r)" and
    b: "\<forall>v s' ns. r = Inr (v, s', ns) \<longrightarrow> pheight s' \<le> pheight self"
    by blast
  show ?case
  proof (cases r)
    case (Inl e)
    then show ?thesis using c by simp
  next
    case (Inr t)
    then obtain v self' nodes where t: "r = Inr (v, self', nodes)"
      by (cases t) auto
    with b have le: "pheight self' \<le> pheight self" by simp
    then have "pheight self' \<le> h" using Cons.prems by simp
    note ih = Cons.IH [OF this, of v "matched_nodes @ nodes" st']
    show ?thesis
    proof (cases "truthy v")
      case True
      then show ?thesis using c t le by simp
    next
      case False
      with ih le show ?thesis
        using c t by (auto intro: order_trans)
    qed
  qed
qed

lemma cm_return_Some:
  assumes "\<exists>st' x. r = Some (st', x) \<and> (\<forall>v s' ns. x = Inr (v, s', ns) \<longrightarrow> pheight s' \<le> k)"
  shows "\<exists>st'' y. cm_return r = Some (st'', y)
           \<and> (\<forall>v s' ns. y = Inr (v, s', ns) \<longrightarrow> pheight s' \<le> k)"
proof -
  from assms obtain st' x where r: "r = Some (st', x)"
    and b: "\<forall>v s' ns. x = Inr (v, s', ns) \<longrightarrow> pheight s' \<le> k"
    by blast
  show ?thesis
  proof (cases x)
    case (Inl e)
    then show ?thesis using r by (simp add: cm_return_def)
  next
    case (Inr t)
    then obtain v s' ns where "x = Inr (v, s', ns)" by (cases t) auto
    then show ?thesis using r b by (simp add: cm_return_def)
  qed
qed

lemma cascade_body_returns:
  assumes "returns_below call h" and "pheight self \<le> h"
  shows "\<exists>st' r. cascade_body call ev root_syn cache self node st = Some (st', r)
           \<and> (\<forall>v s' ns. r = Inr (v, s', ns) \<longrightarrow> pheight s' \<le> pheight self)"
proof (cases "is_local_match ev root_syn (st(psyntax self := cache)) self node")
  case (Inl e)
  then show ?thesis by (simp add: cascade_body_def)
next
  case (Inr status)
  let ?st1 = "st(psyntax self := cache)"
  let ?m = "if pname self \<noteq> ''*'' then [node] else []"
  let ?same = "case cascade_same call self [0..<length (pchildren self)] node (PyBool True) [] ?st1 of
                   None \<Rightarrow> None
                 | Some (st2, Inl e) \<Rightarrow> Some (st2, Inl e)
                 | Some (st2, Inr (sub_status, self', sub_nodes)) \<Rightarrow>
                     Some (st2, Inr (sub_status, self', ?m @ sub_nodes))"
  let ?inner = "if truthy status then
               (if pchildren self \<noteq> [] then
                  (if length (nchildren node) \<ge> length (pchildren self) then
                     cascade_candidates call self (permutations (nchildren node)) status ?m ?st1
                   else if pname self = ''*'' then ?same
                   else Some (?st1, Inr (PyBool False, self, ?m)))
                else Some (?st1, Inr (status, self, ?m)))
             else Some (?st1, Inr (status, self, []))"
  let ?ok = "\<lambda>r. \<exists>st' x. r = Some (st', x)
                 \<and> (\<forall>v s' ns. x = Inr (v, s', ns) \<longrightarrow> pheight s' \<le> pheight self)"
  have ca: "?ok (cascade_candidates call self (permutations (nchildren node)) status ?m ?st1)"
    using cascade_candidates_returns [OF assms] by blast
  from cascade_same_returns [OF assms] obtain sb rb where
    sa: "cascade_same call self [0..<length (pchildren self)] node (PyBool True) [] ?st1 = Some (sb, rb)"
    and sb: "\<forall>v s' ns. rb = Inr (v, s', ns) \<longrightarrow> pheight s' \<le> pheight self"
    by blast
  have same: "?ok ?same"
  proof (cases rb)
    case (Inl e)
    then show ?thesis using sa by simp
  next
    case (Inr t)
    then obtain v s' ns where "rb = Inr (v, s', ns)" by (cases t) auto
    then show ?thesis using sa sb by simp
  qed
  have "?ok ?inner"
  proof (cases "truthy status")
    case False
    then show ?thesis by simp
  next
    case t: True
    show ?thesis
    proof (cases "pchildren self = []")
      case True
      then show ?thesis using t by simp
    next
      case ne: False
      show ?thesis
      proof (cases "length (nchildren node) \<ge> length (pchildren self)")
        case True
        then show ?thesis using t ne ca by simp
      next
        case short: False
        show ?thesis
        proof (cases "pname self = ''*''")
          case True
          then show ?thesis using t ne short same by simp
        next
          case False
          then show ?thesis using t ne short by simp
        qed
      qed
    qed
  qed
  then have "\<exists>st'' y. cm_return ?inner = Some (st'', y)
           \<and> (\<forall>v s' ns. y = Inr (v, s', ns) \<longrightarrow> pheight s' \<le> pheight self)"
    by (rule cm_return_Some)
  then show ?thesis
    unfolding cascade_body_def Let_def Inr sum.case .
qed

lemma cascade_match_fuel_returns: "returns_below (cascade_match_fuel fuel ev root_syn cache) fuel"
proof (induction fuel)
  case 0
  show ?case by (simp add: returns_below_def)
next
  case (Suc fuel)
  show ?case
    unfolding returns_below_def
  proof (intro allI impI)
    fix q n st
    assume "pheight q < Suc fuel"
    then have "pheight q \<le> fuel" by simp
    from cascade_body_returns [OF Suc this]
    show "\<exists>st' r. cascade_match_fuel (Suc fuel) ev root_syn cache q n st = Some (st', r)
            \<and> (\<forall>v s' ns. r = Inr (v, s', ns) \<longrightarrow> pheight s' \<le> pheight q)"
      by simp
  qed
qed








lemma cascade_match_returns:
  "\<exists>st' r. cascade_match ev root_syn cache self node st = Some (st', r)"
  using cascade_match_fuel_returns [of "Suc (pheight self)" ev root_syn cache]
  unfolding returns_below_def cascade_match_def by blast


section \<open>Evaluation on the examples\<close>

lemma permutations_Nil: "permutations [] = [[]]"
  by (simp add: permutations.simps)

lemma permutations_single: "permutations [a] = [[a]]"
  by (subst permutations.simps) (simp add: permutations_Nil)

lemma permutations_pair: "permutations [a, b] = [[a, b], [b, a]]"
  by (subst permutations.simps) (simp add: permutations_single upt_rec)

lemmas eval_local = is_local_match_def constraint_of_def py_eval_def name_test_def
  name_test_prefix_def plain_char_def dquote_def

section \<open>Cascade search ends\<close>

lemma cascade_scan_returns:
  "\<exists>r. cascade_scan ev root_syn cache pattern_length nodes current_pattern_node
          matched_root_node num_hits st = Some r"
proof (induction nodes arbitrary: current_pattern_node matched_root_node num_hits st)
  case Nil
  show ?case by simp
next
  case (Cons node rest)
  from cascade_match_returns obtain st' x where
    c: "cascade_match ev root_syn cache current_pattern_node node st = Some (st', x)"
    by blast
  show ?case
  proof (cases x)
    case (Inl e)
    then show ?thesis using c by simp
  next
    case (Inr t)
    then obtain status pattern_node matched_nodes where
      t: "x = Inr (status, pattern_node, matched_nodes)" by (cases t) auto
    show ?thesis
      using c t Cons.IH
      by (simp add: Let_def split: option.split list.split)
  qed
qed

lemma find_match_cascade_loop_returns:
  "\<exists>r. find_match_cascade_loop ev root_syn cache self pattern_length tree matched_root_node
          cnt num_hits st = Some r \<and> visited r \<le> 6 - cnt"
proof (induction ev root_syn cache self pattern_length tree matched_root_node cnt num_hits st
    rule: find_match_cascade_loop.induct)
  case (1 ev root_syn cache self pattern_length tree matched_root_node cnt num_hits st)
  let ?tree' = "case matched_root_node of None \<Rightarrow> tree | Some r \<Rightarrow> detach r tree"
  show ?case
  proof (cases "pattern_length \<le> length (get_descendants tree) \<and> cnt \<le> 5")
    case False
    then show ?thesis by (subst find_match_cascade_loop.simps) auto
  next
    case go: True
    show ?thesis
    proof (cases "matched_root_node = None \<and> cnt \<noteq> 0")
      case True
      then show ?thesis using go by (subst find_match_cascade_loop.simps) auto
    next
      case False
      from cascade_scan_returns obtain sc where
        sc: "cascade_scan ev root_syn cache pattern_length (preorder ?tree') self None num_hits st
               = Some sc"
        by blast
      show ?thesis
      proof (cases "scan_raised sc \<noteq> None")
        case True
        then show ?thesis
          using go False sc by (subst find_match_cascade_loop.simps) (auto simp: Let_def)
      next
        case nr: False
        from "1.IH" [OF go False refl sc nr] obtain r where
          r: "find_match_cascade_loop ev root_syn cache self pattern_length ?tree' (scan_root sc)
                (cnt + 1) (scan_hits sc) (scan_bindings sc) = Some r"
          and v: "visited r \<le> 6 - (cnt + 1)"
          by blast
        from go have "cnt \<le> 5" by simp
        with v have "visited (yield_first (scan_yield sc) r) \<le> 6 - cnt"
          by (simp add: yield_first_def)
        then show ?thesis
          using go False sc nr r
          by (subst find_match_cascade_loop.simps) (auto simp: Let_def)
      qed
    qed
  qed
qed

lemma find_match_cascade_terminates:
  "\<exists>r. find_match_cascade ev root_syn self tree cache st = Some r \<and> visited r \<le> 6"
  using find_match_cascade_loop_returns [of ev root_syn cache self _ tree None 0 0 st]
  by (simp add: find_match_cascade_def)







text \<open>
  With two children the loop of the wildcard branch reads the second child of the pattern
  node that the first call returned, a leaf, and raises.
\<close>

lemma wildcard_two_children_raises:
  "map_option snd (cascade_match ev_sample 0 None wild_bb leaf_b no_binding) = Some (Inl IndexError)"
  by (simp add: cascade_match_def wild_bb_def cascade_body_def cm_return_def leaf_b_def
      eval_local upt_rec)

text \<open>
  When the constraint of the root pattern node holds at no node of the tree, the cascade
  search ends after one pass, without an exception and without a result.
\<close>

lemma cascade_match_local_false:
  assumes "is_local_match ev root_syn (st(psyntax self := cache)) self node = Inr v" and "\<not> truthy v"
  shows "cascade_match ev root_syn cache self node st
           = Some ((st(psyntax self := cache))(psyntax self := None), Inr (v, self, []))"
  using assms by (simp add: cascade_match_def cascade_body_def cm_return_def)

lemma cascade_scan_no_anchor:
  assumes "\<forall>node \<in> set nodes. \<forall>st. \<exists>v. is_local_match ev root_syn st self node = Inr v \<and> \<not> truthy v"
  shows "\<exists>sc. cascade_scan ev root_syn cache pattern_length nodes self None 0 st = Some sc
           \<and> scan_root sc = None \<and> scan_hits sc = 0 \<and> scan_yield sc = [] \<and> scan_raised sc = None"
  using assms
proof (induction nodes arbitrary: st)
  case Nil
  show ?case by simp
next
  case (Cons node rest)
  from Cons.prems obtain v where
    v: "is_local_match ev root_syn (st(psyntax self := cache)) self node = Inr v" "\<not> truthy v"
    by (meson list.set_intros(1))
  note c = cascade_match_local_false [OF v]
  from Cons.prems have "\<forall>node \<in> set rest. \<forall>st. \<exists>v. is_local_match ev root_syn st self node = Inr v \<and> \<not> truthy v"
    by simp
  from Cons.IH [OF this, of "st(psyntax self := None)"] obtain sc where
    sc: "cascade_scan ev root_syn cache pattern_length rest self None 0 (st(psyntax self := None))
           = Some sc"
      "scan_root sc = None" "scan_hits sc = 0" "scan_yield sc = []" "scan_raised sc = None"
    by blast
  have c': "cascade_match ev root_syn cache self node st
              = Some (st(psyntax self := None), Inr (v, self, []))"
    using c by simp
  show ?case
    by (simp add: c' v(2) sc)
qed

lemma find_match_cascade_no_anchor:
  assumes "\<forall>node \<in> set (preorder tree). \<forall>st. \<exists>v. is_local_match ev root_syn st self node = Inr v \<and> \<not> truthy v"
  shows "\<exists>r. find_match_cascade ev root_syn self tree cache st = Some r
           \<and> yielded r = [] \<and> raised r = None"
proof -
  let ?pl = "length (pattern_descendants self)"
  from cascade_scan_no_anchor [OF assms, of cache ?pl st] obtain sc where
    sc: "cascade_scan ev root_syn cache ?pl (preorder tree) self None 0 st = Some sc"
      "scan_root sc = None" "scan_hits sc = 0" "scan_yield sc = []" "scan_raised sc = None"
    by blast
  have second: "\<exists>r. find_match_cascade_loop ev root_syn cache self ?pl tree None (Suc 0) 0 st' = Some r
                  \<and> yielded r = [] \<and> raised r = None" for st'
    by (subst find_match_cascade_loop.simps) simp
  from second [of "scan_bindings sc"] obtain r where
    r: "find_match_cascade_loop ev root_syn cache self ?pl tree None (Suc 0) 0 (scan_bindings sc) = Some r"
      "yielded r = []" "raised r = None"
    by blast
  show ?thesis
    unfolding find_match_cascade_def
    by (subst find_match_cascade_loop.simps) (simp add: sc r yield_first_def)
qed

section \<open>Plain search\<close>

lemma find_match_loop_unbounded:
  "yielded (find_match_loop ev root_syn cache self None nodes num_hits st)
     = hits (match_run ev root_syn cache self nodes st)
   \<and> visited (find_match_loop ev root_syn cache self None nodes num_hits st)
     = length (match_run ev root_syn cache self nodes st)
   \<and> raised (find_match_loop ev root_syn cache self None nodes num_hits st)
     = run_error (match_run ev root_syn cache self nodes st)"
proof (induction nodes arbitrary: num_hits st)
  case Nil
  show ?case by (simp add: hits_def)
next
  case (Cons node rest)
  obtain st' r where m: "match ev root_syn cache self node st = (st', r)"
    by (cases "match ev root_syn cache self node st")
  show ?case
  proof (cases r)
    case (Inl e)
    then show ?thesis using m by (simp add: hits_def)
  next
    case (Inr status)
    note ih = Cons.IH [of "if truthy status then num_hits + 1 else num_hits" st']
    have e: "run_error ((node, Inr status) # xs) = run_error xs" if "xs \<noteq> []" for xs
      using that by (cases xs) auto
    show ?thesis
    proof (cases "match_run ev root_syn cache self rest st' = []")
      case True
      then show ?thesis using m Inr ih by (simp add: hits_def yield_first_def Let_def)
    next
      case False
      then show ?thesis using m Inr ih e [OF False] by (simp add: hits_def yield_first_def Let_def)
    qed
  qed
qed

lemma run_error_hit: "is_hit x \<Longrightarrow> run_error [x] = None"
  by (cases x rule: is_hit.cases) auto

lemma run_error_Cons: "xs \<noteq> [] \<Longrightarrow> run_error (x # xs) = run_error xs"
  by (cases xs) auto

lemma upto_hits_empty: "upto_hits k xs = [] \<longleftrightarrow> xs = []"
  by (cases xs) auto

lemma find_match_loop_bounded:
  assumes "num_hits < m"
  shows "yielded (find_match_loop ev root_syn cache self (Some m) nodes num_hits st)
     = take (nat (m - num_hits)) (hits (match_run ev root_syn cache self nodes st))
   \<and> visited (find_match_loop ev root_syn cache self (Some m) nodes num_hits st)
     = length (upto_hits (nat (m - num_hits)) (match_run ev root_syn cache self nodes st))
   \<and> raised (find_match_loop ev root_syn cache self (Some m) nodes num_hits st)
     = run_error (upto_hits (nat (m - num_hits)) (match_run ev root_syn cache self nodes st))"
  using assms
proof (induction nodes arbitrary: num_hits st)
  case Nil
  show ?case by (simp add: hits_def)
next
  case (Cons node rest)
  obtain st' r where mt: "match ev root_syn cache self node st = (st', r)"
    by (cases "match ev root_syn cache self node st")
  show ?case
  proof (cases r)
    case (Inl e)
    then show ?thesis using mt by (simp add: hits_def)
  next
    case (Inr status)
    show ?thesis
    proof (cases "truthy status")
      case False
      note ih = Cons.IH [OF Cons.prems, of st']
      show ?thesis
      proof (cases "match_run ev root_syn cache self rest st' = []")
        case True
        then show ?thesis
          using mt Inr False ih Cons.prems by (simp add: hits_def yield_first_def Let_def)
      next
        case ne: False
        then have "upto_hits (nat (m - num_hits)) (match_run ev root_syn cache self rest st') \<noteq> []"
          by (simp add: upto_hits_empty)
        then show ?thesis
          using mt Inr False ih Cons.prems
          by (simp add: hits_def yield_first_def Let_def run_error_Cons)
      qed
    next
      case True
      show ?thesis
      proof (cases "num_hits + 1 \<ge> m")
        case stop: True
        with Cons.prems have k: "nat (m - num_hits) = 1" by simp
        show ?thesis
          using mt Inr True stop by (simp add: hits_def k)
      next
        case go: False
        then have lt: "num_hits + 1 < m" by simp
        define j where "j = nat (m - (num_hits + 1))"
        have kj: "nat (m - num_hits) = Suc j" "j \<noteq> 0"
          using lt unfolding j_def by linarith+
        note ih = Cons.IH [OF lt, of st', folded j_def]
        show ?thesis
        proof (cases "match_run ev root_syn cache self rest st' = []")
          case e: True
          then show ?thesis
            using mt Inr True go ih
            by (simp add: hits_def yield_first_def Let_def kj)
        next
          case ne: False
          then have "upto_hits j (match_run ev root_syn cache self rest st') \<noteq> []"
            by (simp add: upto_hits_empty)
          then show ?thesis
            using mt Inr True go ih
            by (simp add: hits_def yield_first_def Let_def kj run_error_Cons)
        qed
      qed
    qed
  qed
qed

lemma find_match_loop_nonpositive:
  assumes "m \<le> 0"
  shows "yielded (find_match_loop ev root_syn cache self (Some m) nodes 0 st)
           = hits (take 1 (match_run ev root_syn cache self nodes st))
       \<and> visited (find_match_loop ev root_syn cache self (Some m) nodes 0 st)
           = length (take 1 (match_run ev root_syn cache self nodes st))"
proof (cases nodes)
  case Nil
  then show ?thesis by (simp add: hits_def)
next
  case (Cons node rest)
  obtain st' r where mt: "match ev root_syn cache self node st = (st', r)"
    by (cases "match ev root_syn cache self node st")
  show ?thesis
    using Cons mt assms by (cases r) (auto simp: hits_def Let_def)
qed

lemma upto_hits_prefix: "take (length (upto_hits k xs)) xs = upto_hits k xs"
  by (induction xs arbitrary: k) auto

lemma hits_upto_hits: "1 \<le> k \<Longrightarrow> hits (upto_hits k xs) = take k (hits xs)"
proof (induction xs arbitrary: k)
  case Nil
  show ?case by (simp add: hits_def)
next
  case (Cons x xs)
  show ?case
  proof (cases "is_hit x")
    case False
    then show ?thesis using Cons by (simp add: hits_def)
  next
    case True
    show ?thesis
    proof (cases "k \<le> 1")
      case True
      with Cons.prems have "k = 1" by simp
      then show ?thesis using \<open>is_hit x\<close> by (simp add: hits_def)
    next
      case False
      then obtain j where j: "k = Suc j" "1 \<le> j" by (cases k) auto
      from Cons.IH [OF j(2)] show ?thesis
        using \<open>is_hit x\<close> False j by (simp add: hits_def)
    qed
  qed
qed

lemma upto_hits_last: "1 \<le> k \<Longrightarrow> k \<le> length (hits xs) \<Longrightarrow> is_hit (last (upto_hits k xs))"
proof (induction xs arbitrary: k)
  case Nil
  then show ?case by (simp add: hits_def)
next
  case (Cons x xs)
  show ?case
  proof (cases "is_hit x")
    case False
    with Cons.prems have "k \<le> length (hits xs)" by (simp add: hits_def)
    from Cons.IH [OF Cons.prems(1) this] show ?thesis
      using False Cons.prems \<open>k \<le> length (hits xs)\<close>
      by (auto simp: upto_hits_empty hits_def)
  next
    case True
    show ?thesis
    proof (cases "k \<le> 1")
      case True
      then show ?thesis using \<open>is_hit x\<close> by simp
    next
      case False
      then obtain j where j: "k = Suc j" "1 \<le> j" by (cases k) auto
      with Cons.prems True have "j \<le> length (hits xs)" by (simp add: hits_def)
      from Cons.IH [OF j(2) this] show ?thesis
        using True False j \<open>j \<le> length (hits xs)\<close>
        by (auto simp: upto_hits_empty hits_def)
    qed
  qed
qed

lemma upto_hits_all: "length (hits xs) < k \<Longrightarrow> upto_hits k xs = xs"
proof (induction xs arbitrary: k)
  case Nil
  show ?case by simp
next
  case (Cons x xs)
  show ?case
  proof (cases "is_hit x")
    case False
    then show ?thesis using Cons by (simp add: hits_def)
  next
    case True
    with Cons.prems obtain j where j: "k = Suc j" "length (hits xs) < j"
      by (cases k) (auto simp: hits_def)
    then have "\<not> k \<le> 1" by simp
    then show ?thesis using True j Cons.IH [OF j(2)] by simp
  qed
qed

text \<open>
  The claim C7 as it is written fails for \<open>maxhits = 0\<close>: the counter is compared with
  \<open>maxhits\<close> only after a node was examined, so the first node is still yielded.
\<close>

theorem find_match_maxhits_zero:
  "yielded (find_match ev_sample 0 (Pattern [] 0 []) tree_aa (Some 0) None Preorder no_binding)
     = [tree_aa]
   \<and> take (nat 0) (hits (match_run ev_sample 0 None (Pattern [] 0 []) (traverse Preorder tree_aa)
                           no_binding)) = []"
  by (simp add: find_match_def tree_aa_def eval_local)

text \<open>
  C7, amended: in plain mode the nodes yielded are the hits of the run of anchored matches
  over the traversal, in its order: all of them when \<open>maxhits\<close> is \<open>None\<close>, the first
  \<open>maxhits\<close> of them when \<open>maxhits\<close> is at least 1. The nodes yielded are the hits among the
  nodes visited; when the run has \<open>maxhits\<close> hits the last node visited is a hit (the search
  stops at once), otherwise every node is visited. When \<open>maxhits\<close> is 0 or less, the first
  node of the traversal is still examined, yielded if it matches, and the search stops.
\<close>

theorem find_match_plain_mode:
  fixes ev :: evaluator
  defines "run \<equiv> \<lambda>root_syn self tree cache target_traversal st.
             match_run ev root_syn cache self (traverse target_traversal tree) st"
    and "res \<equiv> \<lambda>root_syn self tree maxhits cache target_traversal st.
             find_match ev root_syn self tree maxhits cache target_traversal st"
  shows "yielded (res root_syn self tree None cache target_traversal st)
           = hits (run root_syn self tree cache target_traversal st)
       \<and> visited (res root_syn self tree None cache target_traversal st)
           = length (run root_syn self tree cache target_traversal st)
       \<and> (1 \<le> m \<longrightarrow>
            yielded (res root_syn self tree (Some m) cache target_traversal st)
              = take (nat m) (hits (run root_syn self tree cache target_traversal st))
            \<and> yielded (res root_syn self tree (Some m) cache target_traversal st)
              = hits (take (visited (res root_syn self tree (Some m) cache target_traversal st))
                        (run root_syn self tree cache target_traversal st))
            \<and> (nat m \<le> length (hits (run root_syn self tree cache target_traversal st)) \<longrightarrow>
                 is_hit (last (take (visited (res root_syn self tree (Some m) cache target_traversal st))
                                 (run root_syn self tree cache target_traversal st))))
            \<and> (length (hits (run root_syn self tree cache target_traversal st)) < nat m \<longrightarrow>
                 visited (res root_syn self tree (Some m) cache target_traversal st)
                   = length (run root_syn self tree cache target_traversal st)))
       \<and> (m \<le> 0 \<longrightarrow>
            yielded (res root_syn self tree (Some m) cache target_traversal st)
              = hits (take 1 (run root_syn self tree cache target_traversal st))
            \<and> visited (res root_syn self tree (Some m) cache target_traversal st)
              = length (take 1 (run root_syn self tree cache target_traversal st)))"
proof -
  let ?run = "match_run ev root_syn cache self (traverse target_traversal tree) st"
  note u = find_match_loop_unbounded [of ev root_syn cache self "traverse target_traversal tree" 0 st]
  have b: "1 \<le> m \<Longrightarrow>
       yielded (find_match ev root_syn self tree (Some m) cache target_traversal st)
         = take (nat m) (hits ?run)
       \<and> visited (find_match ev root_syn self tree (Some m) cache target_traversal st)
         = length (upto_hits (nat m) ?run)"
    using find_match_loop_bounded [of 0 m ev root_syn cache self "traverse target_traversal tree" st]
    by (simp add: find_match_def)
  have z: "m \<le> 0 \<Longrightarrow>
       yielded (find_match ev root_syn self tree (Some m) cache target_traversal st)
         = hits (take 1 ?run)
       \<and> visited (find_match ev root_syn self tree (Some m) cache target_traversal st)
         = length (take 1 ?run)"
    using find_match_loop_nonpositive [of m ev root_syn cache self "traverse target_traversal tree" st]
    by (simp add: find_match_def)
  have k: "1 \<le> m \<Longrightarrow> 1 \<le> nat m" by simp
  have pos: "1 \<le> m \<longrightarrow>
            yielded (find_match ev root_syn self tree (Some m) cache target_traversal st)
              = take (nat m) (hits ?run)
            \<and> yielded (find_match ev root_syn self tree (Some m) cache target_traversal st)
              = hits (take (visited (find_match ev root_syn self tree (Some m) cache target_traversal st))
                        ?run)
            \<and> (nat m \<le> length (hits ?run) \<longrightarrow>
                 is_hit (last (take (visited (find_match ev root_syn self tree (Some m) cache target_traversal st))
                                 ?run)))
            \<and> (length (hits ?run) < nat m \<longrightarrow>
                 visited (find_match ev root_syn self tree (Some m) cache target_traversal st)
                   = length ?run)"
    using b upto_hits_prefix [of "nat m" ?run] hits_upto_hits [OF k, of ?run]
      upto_hits_last [OF k, of ?run] upto_hits_all [of ?run "nat m"]
    by simp
  have none: "yielded (find_match ev root_syn self tree None cache target_traversal st) = hits ?run
       \<and> visited (find_match ev root_syn self tree None cache target_traversal st) = length ?run"
    using u by (simp add: find_match_def)
  from z have z': "m \<le> 0 \<longrightarrow>
       yielded (find_match ev root_syn self tree (Some m) cache target_traversal st)
         = hits (take 1 ?run)
       \<and> visited (find_match ev root_syn self tree (Some m) cache target_traversal st)
         = length (take 1 ?run)"
    by blast
  show ?thesis
    unfolding run_def res_def
    using none pos z' by blast
qed

theorem find_match_plain_mode_witness:
  "(1::int) \<le> 1 \<and> (1::int) \<le> 5 \<and> (0::int) \<le> 0
   \<and> hits (match_run ev_sample 0 None (Pattern ''a'' 0 []) (traverse Preorder tree_aa) no_binding)
       = [leaf_a1, leaf_a2]
   \<and> yielded (find_match ev_sample 0 (Pattern ''a'' 0 []) tree_aa (Some 1) None Preorder no_binding)
       = [leaf_a1]
   \<and> visited (find_match ev_sample 0 (Pattern ''a'' 0 []) tree_aa (Some 1) None Preorder no_binding)
       = 2
   \<and> yielded (find_match ev_sample 0 (Pattern ''a'' 0 []) tree_aa (Some 5) None Preorder no_binding)
       = [leaf_a1, leaf_a2]
   \<and> visited (find_match ev_sample 0 (Pattern ''a'' 0 []) tree_aa (Some 5) None Preorder no_binding)
       = 3
   \<and> yielded (find_match ev_sample 0 (Pattern ''a'' 0 []) tree_aa (Some 0) None Preorder no_binding)
       = []
   \<and> visited (find_match ev_sample 0 (Pattern ''a'' 0 []) tree_aa (Some 0) None Preorder no_binding)
       = 1"
proof -
  have h: "hits (match_run ev_sample 0 None (Pattern ''a'' 0 []) (traverse Preorder tree_aa) no_binding)
             = [leaf_a1, leaf_a2]"
    by (simp add: hits_def tree_aa_def leaf_a1_def leaf_a2_def eval_local)
  have l: "length (match_run ev_sample 0 None (Pattern ''a'' 0 []) (traverse Preorder tree_aa) no_binding)
             = 3"
    by (simp add: tree_aa_def leaf_a1_def leaf_a2_def eval_local)
  have f: "hits (take 1 (match_run ev_sample 0 None (Pattern ''a'' 0 []) (traverse Preorder tree_aa)
                           no_binding)) = []"
    by (simp add: hits_def tree_aa_def leaf_a1_def leaf_a2_def eval_local)
  have v: "visited (find_match ev_sample 0 (Pattern ''a'' 0 []) tree_aa (Some 1) None Preorder no_binding)
             = 2"
    by (simp add: find_match_def tree_aa_def leaf_a1_def leaf_a2_def eval_local yield_first_def)
  note t1 = find_match_plain_mode [where m = 1 and ev = ev_sample and root_syn = 0
      and self = "Pattern ''a'' 0 []" and tree = tree_aa and cache = None
      and target_traversal = Preorder and st = no_binding]
  note t5 = find_match_plain_mode [where m = 5 and ev = ev_sample and root_syn = 0
      and self = "Pattern ''a'' 0 []" and tree = tree_aa and cache = None
      and target_traversal = Preorder and st = no_binding]
  note t0 = find_match_plain_mode [where m = 0 and ev = ev_sample and root_syn = 0
      and self = "Pattern ''a'' 0 []" and tree = tree_aa and cache = None
      and target_traversal = Preorder and st = no_binding]
  show ?thesis
    using t1 t5 t0 h l f v by simp
qed

text \<open>
  After a node was detached, the cache still answers for the nodes left, with the content
  it was built with.
\<close>

lemma nid_detach: "nid (detach r t) = nid t"
  by (cases t) simp

lemma cache_entry_after_detach:
  "get_cached_attr (Some cache_ab) ''name'' (detach leaf_b tree_ab) True = Inr [Some ''b'', Some ''a'']
   \<and> get_cached_attr None ''name'' (detach leaf_b tree_ab) True = Inr [Some ''a'']"
  by (simp add: get_cached_attr_def cache_get_cached_attr_def fake_get_cached_attr_def
      dict_get_def cache_ab_def tree_ab_def leaf_a1_def leaf_b_def getattr_node_def)

lemma match_leaf_binding:
  "fst (match ev root_syn cache (Pattern name syn []) node st) = st(syn := cache)"
  by (simp add: Let_def split: sum.split)

text \<open>
  C3: after \<open>match\<close> has returned, the syntax object of the pattern is still bound to the
  cache; after \<open>cascade_match\<close> on a pattern with a child has returned, the syntax object
  of the root pattern node is still bound (the one of the child was cleared twice); and it
  is still bound when \<open>cascade_match\<close> raises.
\<close>

theorem cache_binding_persists:
  "no_binding 0 = None
   \<and> fst (match ev_sample 0 (Some cache_ab) (Pattern ''b'' 0 []) leaf_b no_binding) 0
        = Some cache_ab
   \<and> map_option (\<lambda>r. (fst r 0, fst r 1, case snd r of Inl e \<Rightarrow> None | Inr (v, p, ns) \<Rightarrow> Some (v, p)))
         (cascade_match ev_sample 0 (Some cache_ab) pat_chain tree_ab no_binding)
        = Some (Some cache_ab, None, Some (PyBool True, Pattern ''a'' 1 []))
   \<and> map_option (\<lambda>r. (fst r 0, snd r))
         (cascade_match ev_sample 0 (Some cache_ab) pat_ab tree_ab no_binding)
        = Some (Some cache_ab, Inl IndexError)"
  by (simp add: no_binding_def cascade_match_def pat_chain_def pat_ab_def cascade_body_def
      cm_return_def tree_ab_def leaf_a1_def leaf_b_def eval_local permutations_pair upt_rec)

text \<open>
  C9: the pattern \<open>pat_xy\<close> matches at no node of \<open>tree_ab\<close>, and the cascade search does
  not end with an empty result: it is ended by the \<open>IndexError\<close> that \<open>cascade_match\<close>
  raises when it reads the second child of the pattern node returned for the first.
\<close>

theorem cascade_search_raises:
  "list_all (\<lambda>n. snd (match ev_sample 0 None pat_xy n no_binding) = Inr (PyBool False))
     (traverse Preorder tree_ab)
   \<and> map_option (\<lambda>r. (yielded r, raised r))
         (find_match_cascade ev_sample 0 pat_xy tree_ab None no_binding)
        = Some ([], Some IndexError)"
  by (simp add: find_match_cascade_def find_match_cascade_loop.simps [of _ _ _ _ _ _ _ 0]
      get_descendants_def levelorder_def cascade_match_def pat_xy_def cascade_body_def
      cm_return_def tree_ab_def leaf_a1_def leaf_b_def eval_local permutations_pair
      permutations_Nil upt_rec)

end
